theory Spec2Isabelle
  imports Main "HOL-Library.Char_ord" "HOL-Library.List_Lexorder" "HOL-Library.Word"
begin

section \<open>The storage engine (bbolt), as the session layer uses it\<close>

text \<open>
  The session layer of the repository delegates to the embedded key-value engine
  \<^verbatim>\<open>go.etcd.io/bbolt\<close>. The engine is an external collaborator; this section models the
  part of its contract that the \<^verbatim>\<open>Session\<close> methods and \<^verbatim>\<open>store.go\<close> call.
  Failures of the infrastructure (disk, file lock, a transaction used after it was closed)
  are outside the model.

  A byte string is a \<open>string\<close> (characters are bytes); keys are compared bytewise, which
  is the lexicographic order on \<open>char list\<close>. A bucket holds its entries in ascending key
  order; an entry is a plain value or a nested bucket, and both live in one key space.
  A bucket carries its sequence counter, a \<^verbatim>\<open>uint64\<close>.

  A value is a Go byte slice, which is nil or a byte string: \<open>None\<close> is the nil slice.
  \<^verbatim>\<open>Put\<close> keeps the slice it is given in the transaction's tree, so a plain entry holds
  a slice that may be nil until the transaction commits; a committed tree is read from
  pages, where a value of length zero is an empty slice that is not nil.
\<close>

type_synonym bytes = string

datatype bucket = Bucket (sequence: "64 word") (entries: "(bytes \<times> node) list")
  and node = Leaf "bytes option" | Sub bucket

type_synonym ents = "(bytes \<times> node) list"

text \<open>
  The errors of \<^verbatim>\<open>errors.go\<close> and those of the engine that the modelled calls can
  return. \<^verbatim>\<open>errors.Wrapf\<close> adds a message and keeps the cause, which is all that
  \<^verbatim>\<open>errors.Is\<close> and the nil tests of the code observe: an error is modelled by its cause.
\<close>

datatype error =
    ErrPathNotFound | ErrKeyNotFound | ErrKeyExists
  | ErrBucketNotFound | ErrBucketExists | ErrBucketNameRequired
  | ErrIncompatibleValue | ErrKeyRequired | ErrKeyTooLarge | ErrValueTooLarge
  | ErrTxNotWritable

text \<open>
  A Go call either returns or panics (a nil dereference, a slice bound out of range).
\<close>

datatype 'a outcome = Panic | Ret 'a

definition MaxKeySize :: int where
  "MaxKeySize = 32768"

definition MaxValueSize :: int where
  "MaxValueSize = 2147483646"

text \<open>
  A transaction works on its own copy of the bucket tree; \<open>root\<close> is the root bucket.
  A \<^verbatim>\<open>*bolt.Bucket\<close> is a handle into the transaction's tree: the names from the root
  bucket down to the bucket. The empty handle is the root bucket itself (\<^verbatim>\<open>tx.root\<close>).
\<close>

record txstate =
  writable :: bool
  root :: bucket

type_synonym handle = "bytes list"

text \<open>The cursor's internal seek: the entries from the first key at or after \<open>k\<close> on.\<close>

definition seek :: "bytes \<Rightarrow> ents \<Rightarrow> ents" where
  "seek k es = dropWhile (\<lambda>e. fst e < k) es"

text \<open>Insertion of an entry at its place in key order, replacing an entry of the same key.\<close>

fun put_ent :: "bytes \<Rightarrow> node \<Rightarrow> ents \<Rightarrow> ents" where
  "put_ent k n [] = [(k, n)]"
| "put_ent k n (e # es) =
     (if fst e < k then e # put_ent k n es
      else if fst e = k then (k, n) # es
      else (k, n) # e # es)"

fun del_ent :: "bytes \<Rightarrow> ents \<Rightarrow> ents" where
  "del_ent k [] = []"
| "del_ent k (e # es) =
     (if fst e < k then e # del_ent k es
      else if fst e = k then es
      else e # es)"

definition find_ent :: "bytes \<Rightarrow> ents \<Rightarrow> node option" where
  "find_ent k es =
     (case seek k es of [] \<Rightarrow> None | e # _ \<Rightarrow> if fst e = k then Some (snd e) else None)"

text \<open>The bucket a handle denotes in a tree, if the names lead through nested buckets.\<close>

fun bucket_at :: "bucket \<Rightarrow> handle \<Rightarrow> bucket option" where
  "bucket_at b [] = Some b"
| "bucket_at b (p # ps) =
     (case find_ent p (entries b) of
        Some (Sub c) \<Rightarrow> bucket_at c ps
      | _ \<Rightarrow> None)"

definition ents_at :: "txstate \<Rightarrow> handle \<Rightarrow> ents" where
  "ents_at t h = (case bucket_at (root t) h of Some b \<Rightarrow> entries b | None \<Rightarrow> [])"

text \<open>The tree after the bucket under a handle has been changed by \<open>f\<close>.\<close>

fun modify_at :: "(bucket \<Rightarrow> bucket) \<Rightarrow> handle \<Rightarrow> bucket \<Rightarrow> bucket" where
  "modify_at f [] b = f b"
| "modify_at f (p # ps) b =
     (case find_ent p (entries b) of
        Some (Sub c) \<Rightarrow> Bucket (sequence b) (put_ent p (Sub (modify_at f ps c)) (entries b))
      | _ \<Rightarrow> b)"

definition map_ents :: "(ents \<Rightarrow> ents) \<Rightarrow> bucket \<Rightarrow> bucket" where
  "map_ents f b = Bucket (sequence b) (f (entries b))"

definition bump_seq :: "bucket \<Rightarrow> bucket" where
  "bump_seq b = Bucket (sequence b + 1) (entries b)"

definition seq_at :: "txstate \<Rightarrow> handle \<Rightarrow> 64 word" where
  "seq_at t h = (case bucket_at (root t) h of Some b \<Rightarrow> sequence b | None \<Rightarrow> 0)"

text \<open>
  The tree that a commit leaves in the store: the transaction's tree written to pages,
  where a plain entry whose slice was nil holds the empty value.
\<close>

primrec committed :: "bucket \<Rightarrow> bucket" and committed_node :: "node \<Rightarrow> node" where
  "committed (Bucket sq es) = Bucket sq (map (map_prod id committed_node) es)"
| "committed_node (Leaf v) = Leaf (Some (case v of None \<Rightarrow> [] | Some x \<Rightarrow> x))"
| "committed_node (Sub b) = Sub (committed b)"

subsection \<open>Bucket operations\<close>

text \<open>\<^verbatim>\<open>Bucket.Bucket(name)\<close>: nil unless the key exists and holds a bucket.\<close>

definition Bucket_Bucket :: "txstate \<Rightarrow> handle \<Rightarrow> bytes \<Rightarrow> handle option" where
  "Bucket_Bucket t h name =
     (case find_ent name (ents_at t h) of
        Some (Sub c) \<Rightarrow> Some (h @ [name])
      | _ \<Rightarrow> None)"

text \<open>\<^verbatim>\<open>Bucket.Get(key)\<close>: nil when the key is absent or holds a nested bucket.\<close>

definition Bucket_Get :: "txstate \<Rightarrow> handle \<Rightarrow> bytes \<Rightarrow> bytes option" where
  "Bucket_Get t h key =
     (case find_ent key (ents_at t h) of
        Some (Leaf v) \<Rightarrow> v
      | _ \<Rightarrow> None)"

definition Bucket_CreateBucket :: "txstate \<Rightarrow> handle \<Rightarrow> bytes \<Rightarrow> (error + handle) \<times> txstate" where
  "Bucket_CreateBucket t h key =
     (if \<not> writable t then (Inl ErrTxNotWritable, t)
      else if key = [] then (Inl ErrBucketNameRequired, t)
      else (case find_ent key (ents_at t h) of
              Some (Sub c) \<Rightarrow> (Inl ErrBucketExists, t)
            | Some (Leaf v) \<Rightarrow> (Inl ErrIncompatibleValue, t)
            | None \<Rightarrow>
                (Inr (h @ [key]),
                 t\<lparr>root := modify_at (map_ents (put_ent key (Sub (Bucket 0 [])))) h (root t)\<rparr>)))"

text \<open>
  On \<^verbatim>\<open>ErrBucketExists\<close> the engine returns \<^verbatim>\<open>b.Bucket(key)\<close>, the handle of the
  bucket that \<^verbatim>\<open>CreateBucket\<close> has just found under the key.
\<close>

definition Bucket_CreateBucketIfNotExists ::
  "txstate \<Rightarrow> handle \<Rightarrow> bytes \<Rightarrow> (error + handle) \<times> txstate" where
  "Bucket_CreateBucketIfNotExists t h key =
     (case Bucket_CreateBucket t h key of
        (Inl e, t') \<Rightarrow> (if e = ErrBucketExists then (Inr (h @ [key]), t') else (Inl e, t'))
      | (Inr c, t') \<Rightarrow> (Inr c, t'))"

text \<open>
  \<^verbatim>\<open>Bucket.DeleteBucket\<close> compares the name with the key the cursor stops at using
  \<^verbatim>\<open>bytes.Equal\<close>. A cursor that runs off the end returns a nil key, which
  \<^verbatim>\<open>bytes.Equal\<close> takes for equal to the empty name: for the empty name in an empty
  bucket the test for a missing bucket passes and the entry found is no bucket. (The other
  operations return for the empty key in an empty bucket what they return for an absent
  key, or reject the empty key before they look it up.)
\<close>

definition Bucket_DeleteBucket :: "txstate \<Rightarrow> handle \<Rightarrow> bytes \<Rightarrow> error option \<times> txstate" where
  "Bucket_DeleteBucket t h key =
     (if \<not> writable t then (Some ErrTxNotWritable, t)
      else (case seek key (ents_at t h) of
              [] \<Rightarrow> (if key \<noteq> [] then (Some ErrBucketNotFound, t)
                     else (Some ErrIncompatibleValue, t))
            | e # _ \<Rightarrow>
                (if key \<noteq> fst e then (Some ErrBucketNotFound, t)
                 else (case snd e of
                         Leaf v \<Rightarrow> (Some ErrIncompatibleValue, t)
                       | Sub c \<Rightarrow>
                           (None, t\<lparr>root := modify_at (map_ents (del_ent key)) h (root t)\<rparr>)))))"

text \<open>\<^verbatim>\<open>len\<close> of a byte slice: the nil slice has length zero.\<close>

definition slice_len :: "bytes option \<Rightarrow> int" where
  "slice_len v = (case v of None \<Rightarrow> 0 | Some x \<Rightarrow> int (length x))"

definition Bucket_Put ::
  "txstate \<Rightarrow> handle \<Rightarrow> bytes \<Rightarrow> bytes option \<Rightarrow> error option \<times> txstate" where
  "Bucket_Put t h key val =
     (if \<not> writable t then (Some ErrTxNotWritable, t)
      else if key = [] then (Some ErrKeyRequired, t)
      else if int (length key) > MaxKeySize then (Some ErrKeyTooLarge, t)
      else if slice_len val > MaxValueSize then (Some ErrValueTooLarge, t)
      else (case find_ent key (ents_at t h) of
              Some (Sub c) \<Rightarrow> (Some ErrIncompatibleValue, t)
            | _ \<Rightarrow> (None, t\<lparr>root := modify_at (map_ents (put_ent key (Leaf val))) h (root t)\<rparr>)))"

definition Bucket_Delete :: "txstate \<Rightarrow> handle \<Rightarrow> bytes \<Rightarrow> error option \<times> txstate" where
  "Bucket_Delete t h key =
     (if \<not> writable t then (Some ErrTxNotWritable, t)
      else (case find_ent key (ents_at t h) of
              None \<Rightarrow> (None, t)
            | Some (Sub c) \<Rightarrow> (Some ErrIncompatibleValue, t)
            | Some (Leaf v) \<Rightarrow>
                (None, t\<lparr>root := modify_at (map_ents (del_ent key)) h (root t)\<rparr>)))"

definition Bucket_NextSequence :: "txstate \<Rightarrow> handle \<Rightarrow> (error + 64 word) \<times> txstate" where
  "Bucket_NextSequence t h =
     (if \<not> writable t then (Inl ErrTxNotWritable, t)
      else (let t' = t\<lparr>root := modify_at bump_seq h (root t)\<rparr>
            in (Inr (seq_at t' h), t')))"

subsection \<open>Transaction operations: the same operations on the root bucket\<close>

definition Tx_Bucket :: "txstate \<Rightarrow> bytes \<Rightarrow> handle option" where
  "Tx_Bucket t name = Bucket_Bucket t [] name"

definition Tx_CreateBucketIfNotExists :: "txstate \<Rightarrow> bytes \<Rightarrow> (error + handle) \<times> txstate" where
  "Tx_CreateBucketIfNotExists t name = Bucket_CreateBucketIfNotExists t [] name"

definition Tx_DeleteBucket :: "txstate \<Rightarrow> bytes \<Rightarrow> error option \<times> txstate" where
  "Tx_DeleteBucket t name = Bucket_DeleteBucket t [] name"

text \<open>\<^verbatim>\<open>Tx.ForEach\<close> visits every key of the root bucket in key order.\<close>

definition Tx_ForEach :: "txstate \<Rightarrow> bytes list" where
  "Tx_ForEach t = map fst (ents_at t [])"

subsection \<open>Cursors\<close>

text \<open>
  A cursor is modelled by the entries from its position on, the head being the entry it
  stands on. \<^verbatim>\<open>First\<close> and \<^verbatim>\<open>Seek\<close> position it and return the entry there,
  \<^verbatim>\<open>Next\<close> advances and returns the new entry; each returns a nil key at the end, and
  once a cursor has returned a nil key every further \<^verbatim>\<open>Next\<close> returns nil again. The
  value returned for a nested bucket is nil.
\<close>

type_synonym cursor = ents

definition Bucket_Cursor :: "txstate \<Rightarrow> handle \<Rightarrow> cursor" where
  "Bucket_Cursor t h = ents_at t h"

definition cur_val :: "node \<Rightarrow> bytes option" where
  "cur_val n = (case n of Leaf v \<Rightarrow> v | Sub b \<Rightarrow> None)"

definition cur_kv :: "cursor \<Rightarrow> (bytes \<times> bytes option) option" where
  "cur_kv c = (case c of [] \<Rightarrow> None | e # _ \<Rightarrow> Some (fst e, cur_val (snd e)))"

definition Cursor_First :: "cursor \<Rightarrow> (bytes \<times> bytes option) option \<times> cursor" where
  "Cursor_First c = (cur_kv c, c)"

definition Cursor_Seek :: "bytes \<Rightarrow> cursor \<Rightarrow> (bytes \<times> bytes option) option \<times> cursor" where
  "Cursor_Seek k c = (cur_kv (seek k c), seek k c)"

definition Cursor_Next :: "cursor \<Rightarrow> (bytes \<times> bytes option) option \<times> cursor" where
  "Cursor_Next c = (cur_kv (tl c), tl c)"

text \<open>\<^verbatim>\<open>bytes.HasPrefix\<close> on byte slices and \<^verbatim>\<open>strings.HasPrefix\<close> on strings.\<close>

definition bytes_HasPrefix :: "bytes \<Rightarrow> bytes \<Rightarrow> bool" where
  "bytes_HasPrefix s p = (length p \<le> length s \<and> take (length p) s = p)"

definition strings_HasPrefix :: "bytes \<Rightarrow> bytes \<Rightarrow> bool" where
  "strings_HasPrefix s p = (length p \<le> length s \<and> take (length p) s = p)"

section \<open>Store and Session\<close>

text \<open>
  \<^verbatim>\<open>const pageSize int32 = 100\<close>. The loop counter of the listing loops stays within
  \<open>0..100\<close>, so it is a \<open>nat\<close> here.
\<close>

definition pageSize :: nat where
  "pageSize = 100"

text \<open>
  The \<^verbatim>\<open>Session\<close> struct: \<open>store_db\<close> is the committed tree behind \<^verbatim>\<open>s.store.db\<close>,
  \<open>tx\<close> the session transaction (\<open>None\<close> is the nil pointer), \<open>err\<close> the session error.
  The trace and debug logging of the methods has no effect on their results and is left
  out.
\<close>

record session =
  store_db :: bucket
  tx :: "txstate option"
  err :: "error option"

text \<open>
  \<^verbatim>\<open>db.View(fn)\<close> runs \<open>fn\<close> on a fresh read-only transaction and rolls it back;
  \<^verbatim>\<open>db.Update(fn)\<close> runs it on a fresh writable transaction and commits when \<open>fn\<close>
  returns nil, rolls back otherwise. A panic of \<open>fn\<close> propagates.
\<close>

definition DB_View ::
  "(txstate \<Rightarrow> (error option \<times> 'r \<times> txstate) outcome) \<Rightarrow> bucket \<Rightarrow> ((error option \<times> 'r) \<times> bucket) outcome" where
  "DB_View fn db =
     (case fn \<lparr>writable = False, root = db\<rparr> of
        Panic \<Rightarrow> Panic
      | Ret (e, r, t') \<Rightarrow> Ret ((e, r), db))"

definition DB_Update ::
  "(txstate \<Rightarrow> (error option \<times> 'r \<times> txstate) outcome) \<Rightarrow> bucket \<Rightarrow> ((error option \<times> 'r) \<times> bucket) outcome" where
  "DB_Update fn db =
     (case fn \<lparr>writable = True, root = db\<rparr> of
        Panic \<Rightarrow> Panic
      | Ret (e, r, t') \<Rightarrow> Ret ((e, r), if e = None then committed (root t') else db))"

text \<open>
  The tail shared by every method:
  \<^verbatim>\<open>if s.tx == nil { err = s.store.db.View(f) } else { err = f(s.tx); s.err = err }\<close>
  (with \<^verbatim>\<open>Update\<close> for the mutating methods). A closure body takes \<open>bound\<close>, which
  says whether \<^verbatim>\<open>s.tx\<close> is non-nil, and the state of the transaction it is applied to:
  in the second branch the closure is applied to \<^verbatim>\<open>s.tx\<close> itself, so the closure's
  \<^verbatim>\<open>tx\<close> and \<^verbatim>\<open>s.tx\<close> are one transaction; in the first branch \<^verbatim>\<open>s.tx\<close> is nil and
  any use of it panics. It returns the error, the captured result variables and the
  transaction's new state.
\<close>

definition run_View ::
  "(bool \<Rightarrow> txstate \<Rightarrow> (error option \<times> 'r \<times> txstate) outcome) \<Rightarrow> session
     \<Rightarrow> ((error option \<times> 'r) \<times> session) outcome" where
  "run_View f s =
     (case tx s of
        None \<Rightarrow>
          (case DB_View (f False) (store_db s) of
             Panic \<Rightarrow> Panic
           | Ret (er, db') \<Rightarrow> Ret (er, s\<lparr>store_db := db'\<rparr>))
      | Some t \<Rightarrow>
          (case f True t of
             Panic \<Rightarrow> Panic
           | Ret (e, r, t') \<Rightarrow> Ret ((e, r), s\<lparr>tx := Some t', err := e\<rparr>)))"

definition run_Update ::
  "(bool \<Rightarrow> txstate \<Rightarrow> (error option \<times> 'r \<times> txstate) outcome) \<Rightarrow> session
     \<Rightarrow> ((error option \<times> 'r) \<times> session) outcome" where
  "run_Update f s =
     (case tx s of
        None \<Rightarrow>
          (case DB_Update (f False) (store_db s) of
             Panic \<Rightarrow> Panic
           | Ret (er, db') \<Rightarrow> Ret (er, s\<lparr>store_db := db'\<rparr>))
      | Some t \<Rightarrow>
          (case f True t of
             Panic \<Rightarrow> Panic
           | Ret (e, r, t') \<Rightarrow> Ret ((e, r), s\<lparr>tx := Some t', err := e\<rparr>)))"

subsection \<open>Path resolution\<close>

text \<open>
  \<^verbatim>\<open>setBucket\<close> walks the path with \<^verbatim>\<open>s.tx.Bucket\<close> for the first segment and
  \<^verbatim>\<open>b.Bucket\<close> for the others. \<open>b\<close> is the bucket pointer (\<open>None\<close> is nil).
\<close>

fun setBucket_loop ::
  "bool \<Rightarrow> txstate \<Rightarrow> nat \<Rightarrow> handle option \<Rightarrow> bytes list \<Rightarrow> (error + handle option) outcome" where
  "setBucket_loop bound t index b [] = Ret (Inr b)"
| "setBucket_loop bound t index b (p # ps) =
     (if index = 0 then
        (if \<not> bound then Panic
         else (case Tx_Bucket t p of
                 None \<Rightarrow> Ret (Inl ErrPathNotFound)
               | Some b' \<Rightarrow> setBucket_loop bound t (index + 1) (Some b') ps))
      else
        (case b of
           None \<Rightarrow> Panic
         | Some h \<Rightarrow>
             (case Bucket_Bucket t h p of
                None \<Rightarrow> Ret (Inl ErrPathNotFound)
              | Some b' \<Rightarrow> setBucket_loop bound t (index + 1) (Some b') ps)))"

definition setBucket :: "bool \<Rightarrow> txstate \<Rightarrow> bytes list \<Rightarrow> (error + handle) outcome" where
  "setBucket bound t path =
     (case setBucket_loop bound t 0 None path of
        Panic \<Rightarrow> Panic
      | Ret (Inl e) \<Rightarrow> Ret (Inl e)
      | Ret (Inr None) \<Rightarrow> Ret (Inl ErrPathNotFound)
      | Ret (Inr (Some b)) \<Rightarrow> Ret (Inr b))"

fun setBucketIfNotExist_loop ::
  "bool \<Rightarrow> txstate \<Rightarrow> nat \<Rightarrow> handle option \<Rightarrow> bytes list
     \<Rightarrow> ((error + handle option) \<times> txstate) outcome" where
  "setBucketIfNotExist_loop bound t index b [] = Ret (Inr b, t)"
| "setBucketIfNotExist_loop bound t index b (p # ps) =
     (if index = 0 then
        (if \<not> bound then Panic
         else (case Tx_CreateBucketIfNotExists t p of
                 (Inl e, t') \<Rightarrow> Ret (Inl e, t')
               | (Inr b', t') \<Rightarrow> setBucketIfNotExist_loop bound t' (index + 1) (Some b') ps))
      else
        (case b of
           None \<Rightarrow> Panic
         | Some h \<Rightarrow>
             (case Bucket_CreateBucketIfNotExists t h p of
                (Inl e, t') \<Rightarrow> Ret (Inl e, t')
              | (Inr b', t') \<Rightarrow> setBucketIfNotExist_loop bound t' (index + 1) (Some b') ps)))"

definition setBucketIfNotExist ::
  "bool \<Rightarrow> txstate \<Rightarrow> bytes list \<Rightarrow> ((error + handle) \<times> txstate) outcome" where
  "setBucketIfNotExist bound t path =
     (case setBucketIfNotExist_loop bound t 0 None path of
        Panic \<Rightarrow> Panic
      | Ret (Inl e, t') \<Rightarrow> Ret (Inl e, t')
      | Ret (Inr None, t') \<Rightarrow> Ret (Inl ErrPathNotFound, t')
      | Ret (Inr (Some b), t') \<Rightarrow> Ret (Inr b, t'))"

subsection \<open>Read, KeyExists, BucketExists\<close>

definition Read_body ::
  "bytes list \<Rightarrow> bytes \<Rightarrow> bool \<Rightarrow> txstate \<Rightarrow> (error option \<times> bytes option \<times> txstate) outcome" where
  "Read_body path key bound t =
     (case setBucket bound t path of
        Panic \<Rightarrow> Panic
      | Ret (Inl e) \<Rightarrow> Ret (Some ErrPathNotFound, None, t)
      | Ret (Inr b) \<Rightarrow>
          (case Bucket_Get t b key of
             None \<Rightarrow> Ret (Some ErrKeyNotFound, None, t)
           | Some v \<Rightarrow> Ret (None, Some v, t)))"

definition Read ::
  "bytes list \<Rightarrow> bytes \<Rightarrow> session \<Rightarrow> ((bytes option \<times> error option) \<times> session) outcome" where
  "Read path key s =
     (case run_View (Read_body path key) s of
        Panic \<Rightarrow> Panic
      | Ret ((e, result), s') \<Rightarrow> Ret ((result, e), s'))"

definition KeyExists_body ::
  "bytes list \<Rightarrow> bytes \<Rightarrow> bool \<Rightarrow> txstate \<Rightarrow> (error option \<times> unit \<times> txstate) outcome" where
  "KeyExists_body path key bound t =
     (case setBucket bound t path of
        Panic \<Rightarrow> Panic
      | Ret (Inl e) \<Rightarrow> Ret (Some e, (), t)
      | Ret (Inr b) \<Rightarrow>
          (case Bucket_Get t b key of
             None \<Rightarrow> Ret (Some ErrKeyNotFound, (), t)
           | Some v \<Rightarrow> Ret (None, (), t)))"

definition KeyExists :: "bytes list \<Rightarrow> bytes \<Rightarrow> session \<Rightarrow> (bool \<times> session) outcome" where
  "KeyExists path key s =
     (case run_View (KeyExists_body path key) s of
        Panic \<Rightarrow> Panic
      | Ret ((e, u), s') \<Rightarrow> Ret (e = None, s'))"

definition BucketExists_body ::
  "bytes list \<Rightarrow> bool \<Rightarrow> txstate \<Rightarrow> (error option \<times> unit \<times> txstate) outcome" where
  "BucketExists_body path bound t =
     (case setBucket bound t path of
        Panic \<Rightarrow> Panic
      | Ret (Inl e) \<Rightarrow> Ret (Some e, (), t)
      | Ret (Inr b) \<Rightarrow> Ret (None, (), t))"

definition BucketExists :: "bytes list \<Rightarrow> session \<Rightarrow> (bool \<times> session) outcome" where
  "BucketExists path s =
     (case run_View (BucketExists_body path) s of
        Panic \<Rightarrow> Panic
      | Ret ((e, u), s') \<Rightarrow> Ret (if e = Some ErrPathNotFound then False else e = None, s'))"

subsection \<open>List, ListKeys, ListBuckets\<close>

function list_loop ::
  "nat \<Rightarrow> bytes \<Rightarrow> cursor \<Rightarrow> bytes list \<Rightarrow> bytes option list
     \<Rightarrow> bytes list \<times> bytes option list \<times> cursor" where
  "list_loop i pageToken c keys vals =
     (if i < pageSize then
        (case (if i = 0
               then (if pageToken = [] then Cursor_First c else Cursor_Seek pageToken c)
               else Cursor_Next c) of
           (None, c') \<Rightarrow> (keys, vals, c')
         | (Some (k, v), c') \<Rightarrow> list_loop (i + 1) pageToken c' (keys @ [k]) (vals @ [v]))
      else (keys, vals, c))"
  by pat_completeness auto
termination
  by (relation "measure (\<lambda>(i, pageToken, c, keys, vals). pageSize - i)") auto

text \<open>The statement after the loop: \<^verbatim>\<open>k, _ = cursor.Next(); if k != nil { nextToken = string(k) }\<close>.\<close>

definition next_token :: "cursor \<Rightarrow> bytes" where
  "next_token c = (case fst (Cursor_Next c) of None \<Rightarrow> [] | Some (k, v) \<Rightarrow> k)"

definition List_body ::
  "bytes list \<Rightarrow> bytes \<Rightarrow> bool \<Rightarrow> txstate
     \<Rightarrow> (error option \<times> (bytes list \<times> bytes option list \<times> bytes) \<times> txstate) outcome" where
  "List_body path pageToken bound t =
     (case setBucket bound t path of
        Panic \<Rightarrow> Panic
      | Ret (Inl e) \<Rightarrow> Ret (Some e, ([], [], []), t)
      | Ret (Inr b) \<Rightarrow>
          (case list_loop 0 pageToken (Bucket_Cursor t b) [] [] of
             (keys, vals, c) \<Rightarrow> Ret (None, (keys, vals, next_token c), t)))"

definition List ::
  "bytes list \<Rightarrow> bytes \<Rightarrow> session
     \<Rightarrow> ((bytes list \<times> bytes option list \<times> bytes \<times> error option) \<times> session) outcome" where
  "List path pageToken s =
     (case run_View (List_body path pageToken) s of
        Panic \<Rightarrow> Panic
      | Ret ((e, (keys, vals, nextToken)), s') \<Rightarrow>
          (if e \<noteq> None then Ret (([], [], [], None), s')
           else Ret ((keys, vals, nextToken, None), s')))"

function keys_loop ::
  "nat \<Rightarrow> bytes \<Rightarrow> cursor \<Rightarrow> bytes list \<Rightarrow> bytes list \<times> cursor" where
  "keys_loop i pageToken c keys =
     (if i < pageSize then
        (case (if i = 0
               then (if pageToken = [] then Cursor_First c else Cursor_Seek pageToken c)
               else Cursor_Next c) of
           (None, c') \<Rightarrow> (keys, c')
         | (Some (k, v), c') \<Rightarrow> keys_loop (i + 1) pageToken c' (keys @ [k]))
      else (keys, c))"
  by pat_completeness auto
termination
  by (relation "measure (\<lambda>(i, pageToken, c, keys). pageSize - i)") auto

definition ListKeys_body ::
  "bytes list \<Rightarrow> bytes \<Rightarrow> bool \<Rightarrow> txstate
     \<Rightarrow> (error option \<times> (bytes list \<times> bytes) \<times> txstate) outcome" where
  "ListKeys_body path pageToken bound t =
     (case setBucket bound t path of
        Panic \<Rightarrow> Panic
      | Ret (Inl e) \<Rightarrow> Ret (Some e, ([], []), t)
      | Ret (Inr b) \<Rightarrow>
          (case keys_loop 0 pageToken (Bucket_Cursor t b) [] of
             (keys, c) \<Rightarrow> Ret (None, (keys, next_token c), t)))"

definition ListKeys ::
  "bytes list \<Rightarrow> bytes \<Rightarrow> session
     \<Rightarrow> ((bytes list \<times> bytes \<times> error option) \<times> session) outcome" where
  "ListKeys path pageToken s =
     (case run_View (ListKeys_body path pageToken) s of
        Panic \<Rightarrow> Panic
      | Ret ((e, (keys, nextToken)), s') \<Rightarrow>
          (if e \<noteq> None then Ret (([], [], None), s')
           else Ret ((keys, nextToken, None), s')))"

text \<open>
  \<^verbatim>\<open>ListBuckets\<close>: the empty path is answered by \<^verbatim>\<open>tx.ForEach\<close>; any other path runs
  the same cursor loop as \<^verbatim>\<open>ListKeys\<close>. On an error the method returns the error.
\<close>

definition ListBuckets_body ::
  "bytes list \<Rightarrow> bytes \<Rightarrow> bool \<Rightarrow> txstate
     \<Rightarrow> (error option \<times> (bytes list \<times> bytes) \<times> txstate) outcome" where
  "ListBuckets_body path pageToken bound t =
     (if length path = 0 then Ret (None, (Tx_ForEach t, []), t)
      else
        (case setBucket bound t path of
           Panic \<Rightarrow> Panic
         | Ret (Inl e) \<Rightarrow> Ret (Some e, ([], []), t)
         | Ret (Inr b) \<Rightarrow>
             (case keys_loop 0 pageToken (Bucket_Cursor t b) [] of
                (buckets, c) \<Rightarrow> Ret (None, (buckets, next_token c), t))))"

definition ListBuckets ::
  "bytes list \<Rightarrow> bytes \<Rightarrow> session
     \<Rightarrow> ((bytes list \<times> bytes \<times> error option) \<times> session) outcome" where
  "ListBuckets path pageToken s =
     (case run_View (ListBuckets_body path pageToken) s of
        Panic \<Rightarrow> Panic
      | Ret ((e, (buckets, nextToken)), s') \<Rightarrow>
          (if e \<noteq> None then Ret (([], [], e), s')
           else Ret ((buckets, nextToken, None), s')))"

subsection \<open>PrefixExists, ReadScan\<close>

text \<open>
  \<^verbatim>\<open>for k, _ := c.Seek(filter); k != nil && bytes.HasPrefix(k, filter); k, _ = c.Next()\<close>:
  \<open>kv\<close> is the entry the loop variable holds, \<open>c\<close> the cursor.
\<close>

function prefix_loop :: "bytes \<Rightarrow> (bytes \<times> bytes option) option \<Rightarrow> cursor \<Rightarrow> bool" where
  "prefix_loop flt kv c =
     (case kv of
        None \<Rightarrow> False
      | Some (k, v) \<Rightarrow>
          (if \<not> bytes_HasPrefix k flt then False
           else if strings_HasPrefix k flt then True
           else (case Cursor_Next c of (kv', c') \<Rightarrow> prefix_loop flt kv' c')))"
  by pat_completeness auto
termination
  by (relation "measure (\<lambda>(flt, kv, c). case kv of None \<Rightarrow> 0 | Some x \<Rightarrow> Suc (length c))")
     (auto simp: Cursor_Next_def cur_kv_def dest: arg_cong [where f = length]
           split: list.splits option.splits)

definition PrefixExists_body ::
  "bytes list \<Rightarrow> bytes \<Rightarrow> bool \<Rightarrow> txstate \<Rightarrow> (error option \<times> bool \<times> txstate) outcome" where
  "PrefixExists_body path prefix bound t =
     (case setBucket bound t path of
        Panic \<Rightarrow> Panic
      | Ret (Inl e) \<Rightarrow> Ret (Some ErrPathNotFound, False, t)
      | Ret (Inr b) \<Rightarrow>
          (case Cursor_Seek prefix (Bucket_Cursor t b) of
             (kv, c) \<Rightarrow> Ret (None, prefix_loop prefix kv c, t)))"

definition PrefixExists ::
  "bytes list \<Rightarrow> bytes \<Rightarrow> session \<Rightarrow> ((bool \<times> error option) \<times> session) outcome" where
  "PrefixExists path prefix s =
     (case run_View (PrefixExists_body path prefix) s of
        Panic \<Rightarrow> Panic
      | Ret ((e, exists), s') \<Rightarrow>
          (if e \<noteq> None then Ret ((False, e), s') else Ret ((exists, None), s')))"

function scan_loop ::
  "bytes \<Rightarrow> (bytes \<times> bytes option) option \<Rightarrow> cursor \<Rightarrow> bytes list \<Rightarrow> bytes option list
     \<Rightarrow> bytes list \<times> bytes option list" where
  "scan_loop flt kv c keys vals =
     (case kv of
        None \<Rightarrow> (keys, vals)
      | Some (k, v) \<Rightarrow>
          (if \<not> bytes_HasPrefix k flt then (keys, vals)
           else (case Cursor_Next c of
                   (kv', c') \<Rightarrow> scan_loop flt kv' c' (keys @ [k]) (vals @ [v]))))"
  by pat_completeness auto
termination
  by (relation "measure (\<lambda>(flt, kv, c, keys, vals).
                   case kv of None \<Rightarrow> 0 | Some x \<Rightarrow> Suc (length c))")
     (auto simp: Cursor_Next_def cur_kv_def dest: arg_cong [where f = length]
           split: list.splits option.splits)

definition ReadScan_body ::
  "bytes list \<Rightarrow> bytes \<Rightarrow> bool \<Rightarrow> txstate
     \<Rightarrow> (error option \<times> (bytes list \<times> bytes option list) \<times> txstate) outcome" where
  "ReadScan_body path prefix bound t =
     (case setBucket bound t path of
        Panic \<Rightarrow> Panic
      | Ret (Inl e) \<Rightarrow> Ret (Some ErrPathNotFound, ([], []), t)
      | Ret (Inr b) \<Rightarrow>
          (case Cursor_Seek prefix (Bucket_Cursor t b) of
             (kv, c) \<Rightarrow> Ret (None, scan_loop prefix kv c [] [], t)))"

definition ReadScan ::
  "bytes list \<Rightarrow> bytes \<Rightarrow> session
     \<Rightarrow> ((bytes list \<times> bytes option list \<times> error option) \<times> session) outcome" where
  "ReadScan path prefix s =
     (case run_View (ReadScan_body path prefix) s of
        Panic \<Rightarrow> Panic
      | Ret ((e, (keys, vals)), s') \<Rightarrow>
          (if e \<noteq> None then Ret (([], [], e), s') else Ret ((keys, vals, None), s')))"

subsection \<open>NextSeq, Write, DeleteKey, CreateBucket, DeleteBucket\<close>

definition NextSeq_body ::
  "bytes list \<Rightarrow> bool \<Rightarrow> txstate \<Rightarrow> (error option \<times> 64 word \<times> txstate) outcome" where
  "NextSeq_body path bound t =
     (case setBucketIfNotExist bound t path of
        Panic \<Rightarrow> Panic
      | Ret (Inl e, t') \<Rightarrow> Ret (Some e, 0, t')
      | Ret (Inr b, t') \<Rightarrow>
          (case Bucket_NextSequence t' b of
             (Inl e, t'') \<Rightarrow> Ret (Some e, 0, t'')
           | (Inr n, t'') \<Rightarrow> Ret (None, n, t'')))"

definition NextSeq ::
  "bytes list \<Rightarrow> session \<Rightarrow> ((64 word \<times> error option) \<times> session) outcome" where
  "NextSeq path s =
     (case run_Update (NextSeq_body path) s of
        Panic \<Rightarrow> Panic
      | Ret ((e, n), s') \<Rightarrow> Ret ((n, e), s'))"

definition Write_body ::
  "bytes list \<Rightarrow> bytes \<Rightarrow> bytes option \<Rightarrow> bool \<Rightarrow> txstate
     \<Rightarrow> (error option \<times> unit \<times> txstate) outcome" where
  "Write_body path key val bound t =
     (case setBucketIfNotExist bound t path of
        Panic \<Rightarrow> Panic
      | Ret (Inl e, t') \<Rightarrow> Ret (Some e, (), t')
      | Ret (Inr b, t') \<Rightarrow>
          (case Bucket_Put t' b key val of
             (Some e, t'') \<Rightarrow> Ret (Some e, (), t'')
           | (None, t'') \<Rightarrow> Ret (None, (), t'')))"

definition Write ::
  "bytes list \<Rightarrow> bytes \<Rightarrow> bytes option \<Rightarrow> session \<Rightarrow> (error option \<times> session) outcome" where
  "Write path key val s =
     (case run_Update (Write_body path key val) s of
        Panic \<Rightarrow> Panic
      | Ret ((e, u), s') \<Rightarrow> Ret (e, s'))"

definition DeleteKey_body ::
  "bytes list \<Rightarrow> bytes \<Rightarrow> bool \<Rightarrow> txstate \<Rightarrow> (error option \<times> unit \<times> txstate) outcome" where
  "DeleteKey_body path key bound t =
     (case setBucketIfNotExist bound t path of
        Panic \<Rightarrow> Panic
      | Ret (Inl e, t') \<Rightarrow> Ret (None, (), t')
      | Ret (Inr b, t') \<Rightarrow>
          (case Bucket_Delete t' b key of
             (Some e, t'') \<Rightarrow> Ret (Some e, (), t'')
           | (None, t'') \<Rightarrow> Ret (None, (), t'')))"

definition DeleteKey ::
  "bytes list \<Rightarrow> bytes \<Rightarrow> session \<Rightarrow> (error option \<times> session) outcome" where
  "DeleteKey path key s =
     (case run_Update (DeleteKey_body path key) s of
        Panic \<Rightarrow> Panic
      | Ret ((e, u), s') \<Rightarrow> Ret (e, s'))"

definition CreateBucket_body ::
  "bytes list \<Rightarrow> bool \<Rightarrow> txstate \<Rightarrow> (error option \<times> unit \<times> txstate) outcome" where
  "CreateBucket_body path bound t =
     (case setBucketIfNotExist bound t path of
        Panic \<Rightarrow> Panic
      | Ret (Inl e, t') \<Rightarrow> Ret (Some e, (), t')
      | Ret (Inr b, t') \<Rightarrow> Ret (None, (), t'))"

definition CreateBucket :: "bytes list \<Rightarrow> session \<Rightarrow> (error option \<times> session) outcome" where
  "CreateBucket path s =
     (case run_Update (CreateBucket_body path) s of
        Panic \<Rightarrow> Panic
      | Ret ((e, u), s') \<Rightarrow> Ret (e, s'))"

text \<open>
  \<^verbatim>\<open>DeleteBucket\<close>: a path of length one goes to \<^verbatim>\<open>tx.DeleteBucket\<close> and returns its
  result as it is; otherwise the parent \<^verbatim>\<open>path[:len(path)-1]\<close> is resolved (the slice
  expression panics on the empty path) and \<^verbatim>\<open>ErrBucketNotFound\<close> of the engine is
  turned into nil.
\<close>

definition DeleteBucket_body ::
  "bytes list \<Rightarrow> bool \<Rightarrow> txstate \<Rightarrow> (error option \<times> unit \<times> txstate) outcome" where
  "DeleteBucket_body path bound t =
     (if length path = 1 then
        (case Tx_DeleteBucket t (path ! 0) of (e, t') \<Rightarrow> Ret (e, (), t'))
      else if length path = 0 then Panic
      else
        (case setBucket bound t (take (length path - 1) path) of
           Panic \<Rightarrow> Panic
         | Ret (Inl e) \<Rightarrow> Ret (None, (), t)
         | Ret (Inr b) \<Rightarrow>
             (case Bucket_DeleteBucket t b (path ! (length path - 1)) of
                (e, t') \<Rightarrow>
                  (if e \<noteq> None \<and> e = Some ErrBucketNotFound then Ret (None, (), t')
                   else Ret (e, (), t')))))"

definition DeleteBucket :: "bytes list \<Rightarrow> session \<Rightarrow> (error option \<times> session) outcome" where
  "DeleteBucket path s =
     (case run_Update (DeleteBucket_body path) s of
        Panic \<Rightarrow> Panic
      | Ret ((e, u), s') \<Rightarrow> Ret (e, s'))"

subsection \<open>Store: sessions and their closers\<close>

text \<open>
  \<^verbatim>\<open>Store.ReadSession\<close> and \<^verbatim>\<open>Store.WriteSession\<close> on a store whose committed tree is
  \<open>db\<close>. A closer returns the store's committed tree after the transaction has ended:
  \<^verbatim>\<open>Rollback\<close> leaves it as it was, \<^verbatim>\<open>Commit\<close> replaces it by the transaction's tree
  as written to pages.
\<close>

definition ReadSession :: "bucket \<Rightarrow> session" where
  "ReadSession db = \<lparr>store_db = db, tx = Some \<lparr>writable = False, root = db\<rparr>, err = None\<rparr>"

definition WriteSession :: "bucket \<Rightarrow> session" where
  "WriteSession db = \<lparr>store_db = db, tx = Some \<lparr>writable = True, root = db\<rparr>, err = None\<rparr>"

definition Tx_Rollback :: "session \<Rightarrow> bucket" where
  "Tx_Rollback s = store_db s"

definition Tx_Commit :: "session \<Rightarrow> bucket" where
  "Tx_Commit s = (case tx s of None \<Rightarrow> store_db s | Some t \<Rightarrow> committed (root t))"

definition read_closer :: "session \<Rightarrow> bucket" where
  "read_closer s = Tx_Rollback s"

definition write_closer :: "session \<Rightarrow> bucket" where
  "write_closer s = (if err s \<noteq> None then Tx_Rollback s else Tx_Commit s)"

text \<open>The empty store: a root bucket without entries.\<close>

definition empty_db :: bucket where
  "empty_db = Bucket 0 []"

subsection \<open>Sequences of operations on one session\<close>

datatype op =
    OpRead "bytes list" bytes
  | OpList "bytes list" bytes
  | OpKeyExists "bytes list" bytes
  | OpListKeys "bytes list" bytes
  | OpPrefixExists "bytes list" bytes
  | OpReadScan "bytes list" bytes
  | OpNextSeq "bytes list"
  | OpWrite "bytes list" bytes "bytes option"
  | OpDeleteKey "bytes list" bytes
  | OpBucketExists "bytes list"
  | OpCreateBucket "bytes list"
  | OpDeleteBucket "bytes list"
  | OpListBuckets "bytes list" bytes

definition after :: "('a \<times> session) outcome \<Rightarrow> session outcome" where
  "after r = (case r of Panic \<Rightarrow> Panic | Ret (x, s') \<Rightarrow> Ret s')"

fun exec :: "op \<Rightarrow> session \<Rightarrow> session outcome" where
  "exec (OpRead path key) s = after (Read path key s)"
| "exec (OpList path tok) s = after (List path tok s)"
| "exec (OpKeyExists path key) s = after (KeyExists path key s)"
| "exec (OpListKeys path tok) s = after (ListKeys path tok s)"
| "exec (OpPrefixExists path pfx) s = after (PrefixExists path pfx s)"
| "exec (OpReadScan path pfx) s = after (ReadScan path pfx s)"
| "exec (OpNextSeq path) s = after (NextSeq path s)"
| "exec (OpWrite path key val) s = after (Write path key val s)"
| "exec (OpDeleteKey path key) s = after (DeleteKey path key s)"
| "exec (OpBucketExists path) s = after (BucketExists path s)"
| "exec (OpCreateBucket path) s = after (CreateBucket path s)"
| "exec (OpDeleteBucket path) s = after (DeleteBucket path s)"
| "exec (OpListBuckets path tok) s = after (ListBuckets path tok s)"

fun run_ops :: "op list \<Rightarrow> session \<Rightarrow> session outcome" where
  "run_ops [] s = Ret s"
| "run_ops (x # xs) s = (case exec x s of Panic \<Rightarrow> Panic | Ret s' \<Rightarrow> run_ops xs s')"

section \<open>Notions used in the statements\<close>


text \<open>
  Path resolution fails in the transaction a reading method runs on: the session's own
  transaction, or the read-only transaction that \<^verbatim>\<open>db.View\<close> opens when there is none.
\<close>

definition resolution_fails :: "session \<Rightarrow> bytes list \<Rightarrow> bool" where
  "resolution_fails s path =
     (case (case tx s of
              None \<Rightarrow> setBucket False \<lparr>writable = False, root = store_db s\<rparr> path
            | Some t \<Rightarrow> setBucket True t path) of
        Ret (Inl e) \<Rightarrow> True
      | _ \<Rightarrow> False)"

text \<open>
  The error an operation's closure returns when it is applied to the session's own
  transaction in state \<open>t\<close>.
\<close>

fun body_err :: "op \<Rightarrow> txstate \<Rightarrow> error option outcome" where
  "body_err (OpRead path key) t = map_outcome fst (Read_body path key True t)"
| "body_err (OpList path tok) t = map_outcome fst (List_body path tok True t)"
| "body_err (OpKeyExists path key) t = map_outcome fst (KeyExists_body path key True t)"
| "body_err (OpListKeys path tok) t = map_outcome fst (ListKeys_body path tok True t)"
| "body_err (OpPrefixExists path pfx) t = map_outcome fst (PrefixExists_body path pfx True t)"
| "body_err (OpReadScan path pfx) t = map_outcome fst (ReadScan_body path pfx True t)"
| "body_err (OpNextSeq path) t = map_outcome fst (NextSeq_body path True t)"
| "body_err (OpWrite path key val) t = map_outcome fst (Write_body path key val True t)"
| "body_err (OpDeleteKey path key) t = map_outcome fst (DeleteKey_body path key True t)"
| "body_err (OpBucketExists path) t = map_outcome fst (BucketExists_body path True t)"
| "body_err (OpCreateBucket path) t = map_outcome fst (CreateBucket_body path True t)"
| "body_err (OpDeleteBucket path) t = map_outcome fst (DeleteBucket_body path True t)"
| "body_err (OpListBuckets path tok) t = map_outcome fst (ListBuckets_body path tok True t)"

text \<open>
  A key is absent under a path in a transaction: the path does not resolve, or the
  engine's lookup in the resolved bucket returns nil.
\<close>

definition key_absent :: "txstate \<Rightarrow> bytes list \<Rightarrow> bytes \<Rightarrow> bool" where
  "key_absent t path key =
     (case setBucket True t path of
        Ret (Inr b) \<Rightarrow> Bucket_Get t b key = None
      | _ \<Rightarrow> True)"

text \<open>Concrete states used as examples: one key written under one bucket.\<close>

definition tx_one_key :: txstate where
  "tx_one_key = \<lparr>writable = True, root = Bucket 0 [(''a'', Sub (Bucket 0 [(''k'', Leaf (Some ''v''))]))]\<rparr>"

definition session_one_key :: "error option \<Rightarrow> session" where
  "session_one_key e = \<lparr>store_db = empty_db, tx = Some tx_one_key, err = e\<rparr>"

text \<open>
  Where a listing call starts in the entries of a bucket (the first entry for the empty
  token, the first entry at or after the token otherwise), the key of the first entry of
  a list of entries (empty when there is none), and the key with the value the cursor
  returns for an entry.
\<close>

definition start_at :: "bytes \<Rightarrow> ents \<Rightarrow> ents" where
  "start_at tok es = (if tok = [] then es else seek tok es)"

definition first_key :: "ents \<Rightarrow> bytes" where
  "first_key es = (case es of [] \<Rightarrow> [] | e # _ \<Rightarrow> fst e)"

definition kv_of :: "bytes \<times> node \<Rightarrow> bytes \<times> bytes option" where
  "kv_of e = (fst e, cur_val (snd e))"

text \<open>
  A client that pages through a listing: it starts with the token it is given, feeds each
  returned continuation token into the next call on the same session and stops at the
  empty token, concatenating the pages. \<open>fuel\<close> bounds the number of calls; \<open>None\<close>
  means that the fuel ran out or a call failed.
\<close>

fun collect ::
  "nat \<Rightarrow> (bytes \<Rightarrow> session \<Rightarrow> (('a list \<times> bytes) \<times> session) option) \<Rightarrow> bytes \<Rightarrow> session
     \<Rightarrow> 'a list option" where
  "collect 0 page tok s = None"
| "collect (Suc fuel) page tok s =
     (case page tok s of
        None \<Rightarrow> None
      | Some ((xs, nextToken), s') \<Rightarrow>
          (if nextToken = [] then Some xs
           else (case collect fuel page nextToken s' of
                   None \<Rightarrow> None
                 | Some rest \<Rightarrow> Some (xs @ rest))))"

definition List_page ::
  "bytes list \<Rightarrow> bytes \<Rightarrow> session \<Rightarrow> (((bytes \<times> bytes option) list \<times> bytes) \<times> session) option" where
  "List_page path tok s =
     (case List path tok s of
        Panic \<Rightarrow> None
      | Ret ((keys, vals, nextToken, e), s') \<Rightarrow>
          (if e = None then Some ((zip keys vals, nextToken), s') else None))"

definition ListKeys_page ::
  "bytes list \<Rightarrow> bytes \<Rightarrow> session \<Rightarrow> ((bytes list \<times> bytes) \<times> session) option" where
  "ListKeys_page path tok s =
     (case ListKeys path tok s of
        Panic \<Rightarrow> None
      | Ret ((keys, nextToken, e), s') \<Rightarrow>
          (if e = None then Some ((keys, nextToken), s') else None))"

definition ListBuckets_page ::
  "bytes list \<Rightarrow> bytes \<Rightarrow> session \<Rightarrow> ((bytes list \<times> bytes) \<times> session) option" where
  "ListBuckets_page path tok s =
     (case ListBuckets path tok s of
        Panic \<Rightarrow> None
      | Ret ((buckets, nextToken, e), s') \<Rightarrow>
          (if e = None then Some ((buckets, nextToken), s') else None))"

text \<open>
  Larger examples: 101 top-level buckets created one after the other, and a bucket
  \<^verbatim>\<open>a\<close> that holds 101 keys.
\<close>

definition many_buckets :: "op list" where
  "many_buckets = map (\<lambda>n. OpCreateBucket [[char_of n]]) [1..<102::nat]"

definition many_keys :: ents where
  "many_keys = map (\<lambda>n. ([char_of n], Leaf (Some ''v''))) [1..<102::nat]"

definition tx_many_keys :: txstate where
  "tx_many_keys = \<lparr>writable = False, root = Bucket 0 [(''a'', Sub (Bucket 0 many_keys))]\<rparr>"

definition session_many_keys :: session where
  "session_many_keys =
     \<lparr>store_db = Bucket 0 [(''a'', Sub (Bucket 0 many_keys))], tx = Some tx_many_keys, err = None\<rparr>"

text \<open>An entry matches a prefix when its key begins with the prefix bytes.\<close>

definition matches :: "bytes \<Rightarrow> bytes \<times> node \<Rightarrow> bool" where
  "matches pfx e = bytes_HasPrefix (fst e) pfx"

text \<open>
  An example bucket \<^verbatim>\<open>a\<close> with plain values and a nested bucket, for the prefix scans.
\<close>

definition scan_ents :: ents where
  "scan_ents = [(''ab'', Leaf (Some ''1'')), (''ac'', Leaf (Some ''2'')), (''b'', Sub (Bucket 0 [])), (''ba'', Leaf (Some ''3''))]"

definition tx_scan :: txstate where
  "tx_scan = \<lparr>writable = False, root = Bucket 0 [(''a'', Sub (Bucket 0 scan_ents))]\<rparr>"

definition session_scan :: session where
  "session_scan = \<lparr>store_db = Bucket 0 [(''a'', Sub (Bucket 0 scan_ents))], tx = Some tx_scan, err = None\<rparr>"

text \<open>
  The engine's invariant on a bucket tree: in every bucket the keys are strictly
  ascending and none is empty, and every nested bucket is well-formed in turn.
\<close>

inductive wf_bucket :: "bucket \<Rightarrow> bool" where
  "sorted_wrt (<) (map fst es) \<Longrightarrow> [] \<notin> set (map fst es)
   \<Longrightarrow> (\<And>k c. (k, Sub c) \<in> set es \<Longrightarrow> wf_bucket c)
   \<Longrightarrow> wf_bucket (Bucket sq es)"

text \<open>
  The path can be resolved with creation in a tree: no segment is empty, and no segment
  names a plain value where a bucket is needed. Below the first missing segment every
  bucket is created, so only the emptiness of the remaining segments matters there.
\<close>

fun creatable :: "bucket \<Rightarrow> bytes list \<Rightarrow> bool" where
  "creatable b [] = True"
| "creatable b (p # ps) =
     (p \<noteq> [] \<and>
      (case find_ent p (entries b) of
         None \<Rightarrow> [] \<notin> set ps
       | Some (Leaf v) \<Rightarrow> False
       | Some (Sub c) \<Rightarrow> creatable c ps))"

text \<open>
  \<^verbatim>\<open>Write\<close> followed by \<^verbatim>\<open>Read\<close> of the same path and key, as the next operation
  of the same session and in a read session opened after the closer of the writing
  session has run: the error of the write, the value read and the error of the read.
\<close>

definition write_read ::
  "bytes list \<Rightarrow> bytes \<Rightarrow> bytes option \<Rightarrow> session
     \<Rightarrow> (error option \<times> bytes option \<times> error option) outcome" where
  "write_read path key v s =
     (case Write path key v s of
        Panic \<Rightarrow> Panic
      | Ret (e, s') \<Rightarrow>
          (case Read path key s' of
             Panic \<Rightarrow> Panic
           | Ret (r, s'') \<Rightarrow> Ret (e, r)))"

definition write_close_read ::
  "bytes list \<Rightarrow> bytes \<Rightarrow> bytes option \<Rightarrow> session
     \<Rightarrow> (error option \<times> bytes option \<times> error option) outcome" where
  "write_close_read path key v s =
     (case Write path key v s of
        Panic \<Rightarrow> Panic
      | Ret (e, s') \<Rightarrow>
          (case Read path key (ReadSession (write_closer s')) of
             Panic \<Rightarrow> Panic
           | Ret (r, s'') \<Rightarrow> Ret (e, r)))"

text \<open>A transaction whose tree holds the empty bucket \<^verbatim>\<open>a\<close>.\<close>

definition tx_empty_a :: txstate where
  "tx_empty_a = \<lparr>writable = True, root = Bucket 0 [(''a'', Sub (Bucket 0 []))]\<rparr>"


text \<open>
  Operations that fill the bucket \<^verbatim>\<open>a\<close> with three plain values and one nested bucket,
  and the write session they lead to from the empty store.
\<close>

definition mixed_ops :: "op list" where
  "mixed_ops =
     [OpWrite [''a''] ''ab'' (Some ''1''), OpWrite [''a''] ''ac'' (Some ''2''),
      OpCreateBucket [''a'', ''b''], OpWrite [''a''] ''ba'' (Some ''3'')]"

definition session_mixed :: session where
  "session_mixed =
     \<lparr>store_db = empty_db,
      tx = Some \<lparr>writable = True, root = Bucket 0 [(''a'', Sub (Bucket 0 scan_ents))]\<rparr>,
      err = None\<rparr>"

section \<open>Properties\<close>

text \<open>The equations of the loops are unfolded where a proof asks for it.\<close>

declare list_loop.simps [simp del] keys_loop.simps [simp del]
  prefix_loop.simps [simp del] scan_loop.simps [simp del]

subsection \<open>DeleteBucket on a missing bucket\<close>

text \<open>
  Claim C4. DeleteBucket is said to return no error for a bucket that does not exist, for
  every path, single-segment paths included. In a write session on the empty store,
  \<^verbatim>\<open>DeleteBucket(["x"])\<close> returns the engine's \<^verbatim>\<open>ErrBucketNotFound\<close> and records it on
  the session, while the two-segment path \<^verbatim>\<open>["x","y"]\<close> returns nil; deleting the
  top-level bucket \<^verbatim>\<open>x\<close> a second time returns \<^verbatim>\<open>ErrBucketNotFound\<close> as well.
\<close>

theorem DeleteBucket_top_level_missing:
  "DeleteBucket [''x''] (WriteSession empty_db)
     = Ret (Some ErrBucketNotFound, (WriteSession empty_db)\<lparr>err := Some ErrBucketNotFound\<rparr>)
   \<and> DeleteBucket [''x'', ''y''] (WriteSession empty_db) = Ret (None, WriteSession empty_db)
   \<and> map_outcome fst
        (case run_ops [OpCreateBucket [''x''], OpDeleteBucket [''x'']] (WriteSession empty_db) of
           Panic \<Rightarrow> Panic
         | Ret s \<Rightarrow> DeleteBucket [''x''] s)
     = Ret (Some ErrBucketNotFound)"
  by code_simp

subsection \<open>Path resolution\<close>

lemma find_ent_put_ent_same: "find_ent k (put_ent k n es) = Some n"
  by (induction es) (auto simp: find_ent_def seek_def)

lemma bucket_at_append:
  "bucket_at b (h @ k) = (case bucket_at b h of None \<Rightarrow> None | Some c \<Rightarrow> bucket_at c k)"
  by (induction h arbitrary: b) (auto split: option.splits node.splits)

lemma Bucket_Bucket_char:
  "Bucket_Bucket t h p = (if bucket_at (root t) (h @ [p]) \<noteq> None then Some (h @ [p]) else None)"
  by (auto simp: Bucket_Bucket_def ents_at_def bucket_at_append find_ent_def seek_def
           split: option.splits node.splits list.splits)

lemma setBucket_loop_Suc:
  "setBucket_loop True t (Suc i) (Some h) ps =
     (if ps = [] \<or> bucket_at (root t) (h @ ps) \<noteq> None then Ret (Inr (Some (h @ ps)))
      else Ret (Inl ErrPathNotFound))"
proof (induction ps arbitrary: h i)
  case Nil
  show ?case by simp
next
  case (Cons p ps)
  show ?case
  proof (cases "bucket_at (root t) (h @ [p])")
    case None
    then have "bucket_at (root t) (h @ p # ps) = None"
      using bucket_at_append [of "root t" "h @ [p]" ps] by simp
    with None show ?thesis by (simp add: Bucket_Bucket_char)
  next
    case (Some c)
    then show ?thesis using Cons.IH [where h = "h @ [p]" and i = "Suc i"]
      by (auto simp: Bucket_Bucket_char)
  qed
qed

lemma setBucket_bound:
  "setBucket True t path =
     (if path \<noteq> [] \<and> bucket_at (root t) path \<noteq> None then Ret (Inr path)
      else Ret (Inl ErrPathNotFound))"
proof (cases path)
  case Nil
  then show ?thesis by (simp add: setBucket_def)
next
  case (Cons p ps)
  show ?thesis
  proof (cases "bucket_at (root t) [p]")
    case None
    then have "bucket_at (root t) (p # ps) = None"
      using bucket_at_append [of "root t" "[p]" ps] by simp
    with None Cons show ?thesis
      using Bucket_Bucket_char [of t "[]" p] by (simp add: setBucket_def Tx_Bucket_def)
  next
    case (Some c)
    then show ?thesis using Cons setBucket_loop_Suc [of t 0 "[p]" ps] Bucket_Bucket_char [of t "[]" p]
      by (auto simp: setBucket_def Tx_Bucket_def)
  qed
qed

lemma setBucket_unbound:
  "setBucket False t path = (if path = [] then Ret (Inl ErrPathNotFound) else Panic)"
  by (cases path) (auto simp: setBucket_def)


lemma run_View_bound:
  "tx s = Some t \<Longrightarrow>
   run_View f s = (case f True t of Panic \<Rightarrow> Panic
                   | Ret (e, r, t') \<Rightarrow> Ret ((e, r), s\<lparr>tx := Some t', err := e\<rparr>))"
  by (simp add: run_View_def)

lemma run_Update_bound:
  "tx s = Some t \<Longrightarrow>
   run_Update f s = (case f True t of Panic \<Rightarrow> Panic
                     | Ret (e, r, t') \<Rightarrow> Ret ((e, r), s\<lparr>tx := Some t', err := e\<rparr>))"
  by (simp add: run_Update_def)

lemma setBucket_error: "setBucket bound t path = Ret (Inl e) \<Longrightarrow> e = ErrPathNotFound"
  by (cases bound) (auto simp: setBucket_bound setBucket_unbound split: if_splits)

subsection \<open>Methods on a session without a transaction\<close>







subsection \<open>Listing a path that does not resolve\<close>

text \<open>
  Claim C3 says that List, ListKeys and ListBuckets all return an empty result, an empty
  token and a nil error when the path does not resolve. \<^verbatim>\<open>ListBuckets\<close> returns the
  error instead:
\<close>

theorem ListBuckets_surfaces_error:
  "ListBuckets [''x''] [] (ReadSession empty_db)
     = Ret (([], [], Some ErrPathNotFound), (ReadSession empty_db)\<lparr>err := Some ErrPathNotFound\<rparr>)"
  by code_simp

text \<open>
  Claim C3, amended. On a path whose resolution fails, \<^verbatim>\<open>List\<close> and \<^verbatim>\<open>ListKeys\<close>
  return empty results, an empty token and a nil error; \<^verbatim>\<open>ListBuckets\<close>, which resolves
  non-empty paths only, returns an empty result and an empty token together with the
  \<^verbatim>\<open>ErrPathNotFound\<close> error.
\<close>

theorem listing_on_unresolved_path:
  assumes "resolution_fails s path"
  shows "map_outcome fst (List path tok s) = Ret ([], [], [], None)
       \<and> map_outcome fst (ListKeys path tok s) = Ret ([], [], None)
       \<and> (path \<noteq> [] \<longrightarrow> map_outcome fst (ListBuckets path tok s) = Ret ([], [], Some ErrPathNotFound))"
proof (cases "tx s")
  case None
  with assms have p: "path = []"
    by (auto simp: resolution_fails_def setBucket_unbound split: if_splits)
  show ?thesis using None p
    by (simp add: List_def ListKeys_def run_View_def DB_View_def List_body_def ListKeys_body_def
          setBucket_unbound)
next
  case (Some t)
  with assms obtain e where e: "setBucket True t path = Ret (Inl e)"
    by (auto simp: resolution_fails_def split: outcome.splits sum.splits)
  then have "e = ErrPathNotFound" by (rule setBucket_error)
  with e Some show ?thesis
    by (simp add: List_def ListKeys_def ListBuckets_def run_View_bound List_body_def
          ListKeys_body_def ListBuckets_body_def)
qed

theorem listing_on_unresolved_path_witness:
  "resolution_fails (ReadSession empty_db) [''x'']
   \<and> map_outcome fst (List [''x''] [] (ReadSession empty_db)) = Ret ([], [], [], None)
   \<and> map_outcome fst (ListKeys [''x''] [] (ReadSession empty_db)) = Ret ([], [], None)
   \<and> map_outcome fst (ListBuckets [''x''] [] (ReadSession empty_db)) = Ret ([], [], Some ErrPathNotFound)"
proof -
  have h: "resolution_fails (ReadSession empty_db) [''x'']" by code_simp
  show ?thesis using h listing_on_unresolved_path [OF h, of "[]"] by simp
qed

subsection \<open>The session error\<close>

text \<open>
  Claim C1 says that the session's error field keeps the first error: no later operation
  replaces or clears it. Every method assigns the field unconditionally; after a failed
  \<^verbatim>\<open>Read\<close> the field holds the error, and a following successful \<^verbatim>\<open>Write\<close> sets it
  back to nil.
\<close>

theorem later_success_clears_error:
  "map_outcome err (run_ops [OpRead [''a''] ''k''] (WriteSession empty_db))
     = Ret (Some ErrPathNotFound)
   \<and> map_outcome err
        (run_ops [OpRead [''a''] ''k'', OpWrite [''a''] ''k'' (Some ''v'')] (WriteSession empty_db))
     = Ret None"
  by code_simp

text \<open>
  Claim C1, amended. On a session bound to a transaction, the error field after an
  operation is the error of that operation (nil when it succeeded), whatever the field
  held before: each operation overwrites it.
\<close>

theorem error_field_is_last_error:
  assumes "tx s = Some t"
  shows "map_outcome err (exec x (s\<lparr>err := e0\<rparr>)) = body_err x t"
proof -
  have b: "tx (s\<lparr>err := e0\<rparr>) = Some t" using assms by simp
  show ?thesis
    by (cases x)
       (auto simp: after_def Read_def List_def KeyExists_def ListKeys_def PrefixExists_def
          ReadScan_def NextSeq_def Write_def DeleteKey_def BucketExists_def CreateBucket_def
          DeleteBucket_def ListBuckets_def run_View_bound [OF b] run_Update_bound [OF b]
          split: outcome.splits prod.splits)
qed

theorem error_field_is_last_error_witness:
  "tx (session_one_key None) = Some tx_one_key
   \<and> body_err (OpWrite [''a''] ''k2'' (Some ''v2'')) tx_one_key = Ret None
   \<and> map_outcome err (exec (OpWrite [''a''] ''k2'' (Some ''v2'')) ((session_one_key None)\<lparr>err := Some ErrKeyNotFound\<rparr>))
       = Ret None"
proof -
  have h: "tx (session_one_key None) = Some tx_one_key"
    by (simp add: session_one_key_def)
  have b: "body_err (OpWrite [''a''] ''k2'' (Some ''v2'')) tx_one_key = Ret None"
    by code_simp
  show ?thesis
    using h b error_field_is_last_error [OF h, of "OpWrite [''a''] ''k2'' (Some ''v2'')" "Some ErrKeyNotFound"]
    by simp
qed

subsection \<open>Closing a write session\<close>

lemma exec_bound:
  assumes "tx s = Some t" "exec x s = Ret s'"
  shows "store_db s' = store_db s \<and> (\<exists>t'. tx s' = Some t')"
  using assms(2)
  by (cases x)
     (auto simp: after_def Read_def List_def KeyExists_def ListKeys_def PrefixExists_def
        ReadScan_def NextSeq_def Write_def DeleteKey_def BucketExists_def CreateBucket_def
        DeleteBucket_def ListBuckets_def run_View_bound [OF assms(1)] run_Update_bound [OF assms(1)]
        split: outcome.splits prod.splits if_splits)

lemma run_ops_bound:
  "tx s = Some t \<Longrightarrow> run_ops xs s = Ret s' \<Longrightarrow> store_db s' = store_db s \<and> (\<exists>t'. tx s' = Some t')"
proof (induction xs arbitrary: s t)
  case Nil
  then show ?case by simp
next
  case (Cons x xs)
  from Cons.prems(2) obtain s1 where s1: "exec x s = Ret s1" "run_ops xs s1 = Ret s'"
    by (auto split: outcome.splits)
  from exec_bound [OF Cons.prems(1) s1(1)] obtain t1 where
    "store_db s1 = store_db s" "tx s1 = Some t1" by auto
  with Cons.IH [OF _ s1(2)] show ?case by auto
qed

text \<open>
  Claim C2 says that the closer of a write session rolls back if any operation of the
  session recorded an error. A session whose second operation fails and whose third
  succeeds is committed: the store holds both writes afterwards.
\<close>

theorem commit_after_earlier_error:
  "map_outcome err
     (run_ops [OpWrite [''a''] ''k'' (Some ''v''), OpRead [''a''] ''missing''] (WriteSession empty_db))
     = Ret (Some ErrKeyNotFound)
   \<and> map_outcome write_closer
        (run_ops [OpWrite [''a''] ''k'' (Some ''v''), OpRead [''a''] ''missing'', OpWrite [''a''] ''k2'' (Some ''v2'')]
           (WriteSession empty_db))
     = Ret (Bucket 0 [(''a'', Sub (Bucket 0 [(''k'', Leaf (Some ''v'')), (''k2'', Leaf (Some ''v2''))]))])
   \<and> Bucket 0 [(''a'', Sub (Bucket 0 [(''k'', Leaf (Some ''v'')), (''k2'', Leaf (Some ''v2''))]))] \<noteq> empty_db"
  by code_simp

text \<open>
  Claim C2, amended. After any sequence of operations on a write session, the closer
  rolls back and leaves the store as it was before the session when the session's error
  field is non-nil at that moment (the most recent operation failed); when the field is
  nil it commits the transaction's tree, which holds all writes of the session (as the
  pages hold it: a value written as the nil slice is stored as the empty value).
\<close>

theorem write_closer_decides_on_error_field:
  assumes "run_ops xs (WriteSession db) = Ret s"
  shows "(err s \<noteq> None \<longrightarrow> write_closer s = db)
       \<and> (err s = None \<longrightarrow> (\<exists>t. tx s = Some t \<and> write_closer s = committed (root t)))"
proof -
  have "tx (WriteSession db) = Some \<lparr>writable = True, root = db\<rparr>"
    by (simp add: WriteSession_def)
  from run_ops_bound [OF this assms] obtain t where "store_db s = db" "tx s = Some t"
    by (auto simp: WriteSession_def)
  then show ?thesis
    by (simp add: write_closer_def Tx_Rollback_def Tx_Commit_def)
qed

theorem write_closer_decides_on_error_field_witness:
  "run_ops [OpWrite [''a''] ''k'' (Some ''v'')] (WriteSession empty_db) = Ret (session_one_key None)
   \<and> write_closer (session_one_key None) = root tx_one_key
   \<and> run_ops [OpWrite [''a''] ''k'' (Some ''v''), OpRead [''a''] ''missing''] (WriteSession empty_db)
       = Ret (session_one_key (Some ErrKeyNotFound))
   \<and> write_closer (session_one_key (Some ErrKeyNotFound)) = empty_db"
proof -
  have h1: "run_ops [OpWrite [''a''] ''k'' (Some ''v'')] (WriteSession empty_db) = Ret (session_one_key None)"
    by code_simp
  have h2: "run_ops [OpWrite [''a''] ''k'' (Some ''v''), OpRead [''a''] ''missing''] (WriteSession empty_db)
              = Ret (session_one_key (Some ErrKeyNotFound))"
    by code_simp
  have h3: "committed (root tx_one_key) = root tx_one_key"
    by code_simp
  show ?thesis
    using h1 h2 h3 write_closer_decides_on_error_field [OF h1]
      write_closer_decides_on_error_field [OF h2]
    by (simp add: session_one_key_def)
qed

subsection \<open>KeyExists on a missing key\<close>

text \<open>
  Claim C10. On a session bound to a transaction, \<^verbatim>\<open>KeyExists\<close> for an absent key or an
  unresolvable path returns false and sets the session's error field to a not-found
  error; a write session that calls it as its last operation is rolled back by its
  closer, whatever it wrote before.
\<close>

theorem KeyExists_missing_rolls_back:
  assumes "run_ops xs (WriteSession db) = Ret s" "tx s = Some t" "key_absent t path key"
  shows "\<exists>s'. KeyExists path key s = Ret (False, s')
            \<and> (err s' = Some ErrKeyNotFound \<or> err s' = Some ErrPathNotFound)
            \<and> write_closer s' = db"
proof -
  have "tx (WriteSession db) = Some \<lparr>writable = True, root = db\<rparr>"
    by (simp add: WriteSession_def)
  from run_ops_bound [OF this assms(1)] have db: "store_db s = db"
    by (auto simp: WriteSession_def)
  show ?thesis using assms(3) db
    by (auto simp: key_absent_def KeyExists_def run_View_bound [OF assms(2)] KeyExists_body_def
          write_closer_def Tx_Rollback_def setBucket_bound
          split: outcome.splits sum.splits if_splits)
qed


theorem KeyExists_missing_rolls_back_witness:
  "run_ops [OpWrite [''a''] ''k'' (Some ''v'')] (WriteSession empty_db) = Ret (session_one_key None)
   \<and> tx (session_one_key None) = Some tx_one_key
   \<and> key_absent tx_one_key [''a''] ''zz''
   \<and> (\<exists>s'. KeyExists [''a''] ''zz'' (session_one_key None) = Ret (False, s')
            \<and> (err s' = Some ErrKeyNotFound \<or> err s' = Some ErrPathNotFound)
            \<and> write_closer s' = empty_db)"
proof -
  have h1: "run_ops [OpWrite [''a''] ''k'' (Some ''v'')] (WriteSession empty_db) = Ret (session_one_key None)"
    by code_simp
  have h2: "tx (session_one_key None) = Some tx_one_key"
    by (simp add: session_one_key_def)
  have h3: "key_absent tx_one_key [''a''] ''zz''"
    by code_simp
  show ?thesis
    using h1 h2 h3 KeyExists_missing_rolls_back [OF h1 h2 h3] by simp
qed

subsection \<open>The engine keeps every bucket ordered\<close>

text \<open>
  The operations of a session keep the bucket tree well-formed, so the buckets of every
  store reached from the empty store through sessions hold strictly ascending, non-empty
  keys. The statements about paging and prefix scans below assume this of the bucket
  they read.
\<close>

lemma wf_bucketI:
  assumes "sorted_wrt (<) (map fst (entries b))" "[] \<notin> set (map fst (entries b))"
    "\<And>k c. (k, Sub c) \<in> set (entries b) \<Longrightarrow> wf_bucket c"
  shows "wf_bucket b"
proof (cases b)
  case (Bucket sq es)
  with assms show ?thesis by (intro wf_bucket.intros [of es sq, folded Bucket]) simp_all
qed

lemma wf_sorted: "wf_bucket b \<Longrightarrow> sorted_wrt (<) (map fst (entries b))"
  by (erule wf_bucket.cases) simp

lemma wf_keys: "wf_bucket b \<Longrightarrow> [] \<notin> set (map fst (entries b))"
  by (erule wf_bucket.cases) simp

lemma wf_child: "wf_bucket b \<Longrightarrow> (k, Sub c) \<in> set (entries b) \<Longrightarrow> wf_bucket c"
  by (erule wf_bucket.cases) simp

lemma wf_empty_db: "wf_bucket empty_db"
  by (rule wf_bucketI) (simp_all add: empty_db_def)

lemma find_ent_in_set: "find_ent k es = Some n \<Longrightarrow> (k, n) \<in> set es"
proof -
  assume a: "find_ent k es = Some n"
  then obtain e r where d: "dropWhile (\<lambda>e. fst e < k) es = e # r" and e: "fst e = k" "snd e = n"
    by (auto simp: find_ent_def seek_def split: list.splits if_splits)
  have "e \<in> set (dropWhile (\<lambda>e. fst e < k) es)" by (simp add: d)
  then have "e \<in> set es" by (rule set_dropWhileD)
  with e show ?thesis by (cases e) auto
qed

lemma put_ent_mem: "x \<in> set (put_ent k n es) \<Longrightarrow> x = (k, n) \<or> x \<in> set es"
  by (induction es) (auto split: if_splits)

lemma del_ent_mem: "x \<in> set (del_ent k es) \<Longrightarrow> x \<in> set es"
  by (induction es) (auto split: if_splits)

lemma sorted_put_ent:
  "sorted_wrt (<) (map fst es) \<Longrightarrow> sorted_wrt (<) (map fst (put_ent k n es))"
proof (induction es)
  case Nil
  then show ?case by simp
next
  case (Cons e es)
  from Cons.prems have tl: "sorted_wrt (<) (map fst es)"
    and hd: "\<And>x. x \<in> set es \<Longrightarrow> fst e < fst x" by auto
  show ?case
  proof (cases "fst e < k")
    case True
    have "fst e < fst x" if "x \<in> set (put_ent k n es)" for x
    proof -
      from put_ent_mem [OF that] show ?thesis
      proof
        assume "x = (k, n)"
        with True show ?thesis by simp
      next
        assume "x \<in> set es"
        then show ?thesis by (rule hd)
      qed
    qed
    with True Cons.IH [OF tl] show ?thesis by simp
  next
    case False
    show ?thesis
    proof (cases "fst e = k")
      case True
      with Cons.prems show ?thesis by simp
    next
      case ne: False
      with False have "k < fst e" by simp
      moreover have "k < fst x" if "x \<in> set es" for x
        using hd [OF that] \<open>k < fst e\<close> by simp
      ultimately show ?thesis using False ne Cons.prems by simp
    qed
  qed
qed

lemma sorted_del_ent:
  "sorted_wrt (<) (map fst es) \<Longrightarrow> sorted_wrt (<) (map fst (del_ent k es))"
proof (induction es)
  case Nil
  then show ?case by simp
next
  case (Cons e es)
  from Cons.prems have tl: "sorted_wrt (<) (map fst es)"
    and hd: "\<And>x. x \<in> set es \<Longrightarrow> fst e < fst x" by auto
  have "fst e < fst x" if "x \<in> set (del_ent k es)" for x
    using hd [OF del_ent_mem [OF that]] .
  with Cons.IH [OF tl] Cons.prems show ?case by simp
qed

lemma wf_put:
  assumes "wf_bucket b" "key \<noteq> []" "\<And>c. n = Sub c \<Longrightarrow> wf_bucket c"
  shows "wf_bucket (map_ents (put_ent key n) b)"
proof (rule wf_bucketI)
  show "sorted_wrt (<) (map fst (entries (map_ents (put_ent key n) b)))"
    using wf_sorted [OF assms(1)] by (simp add: map_ents_def sorted_put_ent)
  show "[] \<notin> set (map fst (entries (map_ents (put_ent key n) b)))"
  proof
    assume "[] \<in> set (map fst (entries (map_ents (put_ent key n) b)))"
    then obtain x where x: "x \<in> set (put_ent key n (entries b))" "fst x = []"
      by (auto simp: map_ents_def)
    from put_ent_mem [OF x(1)] x(2) assms(2) have "x \<in> set (entries b)" by auto
    with x(2) wf_keys [OF assms(1)] show False by force
  qed
  show "wf_bucket c" if "(k, Sub c) \<in> set (entries (map_ents (put_ent key n) b))" for k c
  proof -
    from that have "(k, Sub c) \<in> set (put_ent key n (entries b))" by (simp add: map_ents_def)
    from put_ent_mem [OF this] show ?thesis
      using assms(3) wf_child [OF assms(1)] by auto
  qed
qed

lemma wf_del: "wf_bucket b \<Longrightarrow> wf_bucket (map_ents (del_ent key) b)"
proof (rule wf_bucketI)
  assume b: "wf_bucket b"
  show "sorted_wrt (<) (map fst (entries (map_ents (del_ent key) b)))"
    using wf_sorted [OF b] by (simp add: map_ents_def sorted_del_ent)
  show "[] \<notin> set (map fst (entries (map_ents (del_ent key) b)))"
  proof
    assume "[] \<in> set (map fst (entries (map_ents (del_ent key) b)))"
    then obtain x where x: "x \<in> set (del_ent key (entries b))" "fst x = []"
      by (auto simp: map_ents_def)
    from del_ent_mem [OF x(1)] x(2) wf_keys [OF b] show False by force
  qed
  show "wf_bucket c" if "(k, Sub c) \<in> set (entries (map_ents (del_ent key) b))" for k c
  proof -
    from that have "(k, Sub c) \<in> set (del_ent key (entries b))" by (simp add: map_ents_def)
    from del_ent_mem [OF this] show ?thesis by (rule wf_child [OF b])
  qed
qed

lemma wf_bump: "wf_bucket b \<Longrightarrow> wf_bucket (bump_seq b)"
proof (rule wf_bucketI)
  assume b: "wf_bucket b"
  show "sorted_wrt (<) (map fst (entries (bump_seq b)))"
    using wf_sorted [OF b] by (simp add: bump_seq_def)
  show "[] \<notin> set (map fst (entries (bump_seq b)))"
    using wf_keys [OF b] by (simp add: bump_seq_def)
  show "wf_bucket c" if "(k, Sub c) \<in> set (entries (bump_seq b))" for k c
    using wf_child [OF b, of k c] that by (simp add: bump_seq_def)
qed

lemma wf_bucket_at: "wf_bucket r \<Longrightarrow> bucket_at r h = Some b \<Longrightarrow> wf_bucket b"
proof (induction h arbitrary: r)
  case Nil
  then show ?case by simp
next
  case (Cons p ps)
  from Cons.prems(2) obtain c where c: "find_ent p (entries r) = Some (Sub c)" "bucket_at c ps = Some b"
    by (auto split: option.splits node.splits)
  from wf_child [OF Cons.prems(1) find_ent_in_set [OF c(1)]] have "wf_bucket c" .
  from Cons.IH [OF this c(2)] show ?case .
qed

lemma wf_modify_at:
  assumes f: "\<And>b. wf_bucket b \<Longrightarrow> wf_bucket (f b)"
  shows "wf_bucket r \<Longrightarrow> wf_bucket (modify_at f h r)"
proof (induction h arbitrary: r)
  case Nil
  then show ?case by (simp add: f)
next
  case (Cons p ps)
  show ?case
  proof (cases "find_ent p (entries r)")
    case None
    with Cons.prems show ?thesis by simp
  next
    case (Some n)
    show ?thesis
    proof (cases n)
      case (Leaf v)
      with Some Cons.prems show ?thesis by simp
    next
      case (Sub c)
      from find_ent_in_set [OF Some] Sub have mem: "(p, Sub c) \<in> set (entries r)" by simp
      from wf_child [OF Cons.prems mem] have "wf_bucket c" .
      then have c': "wf_bucket (modify_at f ps c)" by (rule Cons.IH)
      have p: "p \<noteq> []" using mem wf_keys [OF Cons.prems] by force
      have "wf_bucket (map_ents (put_ent p (Sub (modify_at f ps c))) r)"
        by (rule wf_put [OF Cons.prems p]) (use c' in simp)
      with Some Sub show ?thesis by (simp add: map_ents_def)
    qed
  qed
qed


lemma wf_CreateBucket:
  "wf_bucket (root t) \<Longrightarrow> wf_bucket (root (snd (Bucket_CreateBucket t h key)))"
proof -
  assume t: "wf_bucket (root t)"
  have e: "wf_bucket (Bucket 0 [])" by (rule wf_bucketI) simp_all
  have "wf_bucket (modify_at (map_ents (put_ent key (Sub (Bucket 0 [])))) h (root t))"
    if "key \<noteq> []"
    by (rule wf_modify_at [OF wf_put t]) (use that e in simp_all)
  with t show ?thesis
    by (simp add: Bucket_CreateBucket_def split: option.splits node.splits)
qed

lemma wf_CreateBucketIfNotExists:
  "wf_bucket (root t) \<Longrightarrow> wf_bucket (root (snd (Bucket_CreateBucketIfNotExists t h key)))"
  using wf_CreateBucket [of t h key]
  by (auto simp: Bucket_CreateBucketIfNotExists_def split: prod.splits sum.splits)

lemma wf_Put: "wf_bucket (root t) \<Longrightarrow> wf_bucket (root (snd (Bucket_Put t h key v)))"
proof -
  assume t: "wf_bucket (root t)"
  have "wf_bucket (modify_at (map_ents (put_ent key (Leaf v))) h (root t))" if "key \<noteq> []"
    by (rule wf_modify_at [OF wf_put t]) (use that in simp_all)
  with t show ?thesis
    by (simp add: Bucket_Put_def split: option.splits node.splits)
qed

lemma wf_modify_del:
  "wf_bucket r \<Longrightarrow> wf_bucket (modify_at (map_ents (del_ent key)) h r)"
  by (rule wf_modify_at [OF wf_del])

lemma wf_Delete: "wf_bucket (root t) \<Longrightarrow> wf_bucket (root (snd (Bucket_Delete t h key)))"
  by (simp add: Bucket_Delete_def wf_modify_del split: option.splits node.splits)

lemma wf_DeleteBucket:
  "wf_bucket (root t) \<Longrightarrow> wf_bucket (root (snd (Bucket_DeleteBucket t h key)))"
  by (simp add: Bucket_DeleteBucket_def wf_modify_del split: list.splits node.splits)

lemma wf_NextSequence:
  "wf_bucket (root t) \<Longrightarrow> wf_bucket (root (snd (Bucket_NextSequence t h)))"
  by (simp add: Bucket_NextSequence_def Let_def wf_modify_at [OF wf_bump])

lemma wf_setBucketIfNotExist_loop:
  "wf_bucket (root t) \<Longrightarrow> setBucketIfNotExist_loop True t i b ps = Ret (r, t')
   \<Longrightarrow> wf_bucket (root t')"
proof (induction ps arbitrary: t i b)
  case Nil
  then show ?case by simp
next
  case (Cons p ps)
  show ?case
  proof (cases "i = 0")
    case True
    obtain r1 t1 where step: "Bucket_CreateBucketIfNotExists t [] p = (r1, t1)"
      by (cases "Bucket_CreateBucketIfNotExists t [] p")
    from wf_CreateBucketIfNotExists [OF Cons.prems(1), of "[]" p] step
    have t1: "wf_bucket (root t1)" by simp
    show ?thesis
    proof (cases r1)
      case (Inl e)
      with Cons.prems(2) True step t1 show ?thesis
        by (simp add: Tx_CreateBucketIfNotExists_def)
    next
      case (Inr b1)
      with Cons.prems(2) True step
      have "setBucketIfNotExist_loop True t1 (i + 1) (Some b1) ps = Ret (r, t')"
        by (simp add: Tx_CreateBucketIfNotExists_def)
      from Cons.IH [OF t1 this] show ?thesis .
    qed
  next
    case False
    from Cons.prems(2) False obtain h where h: "b = Some h" by (cases b) auto
    obtain r1 t1 where step: "Bucket_CreateBucketIfNotExists t h p = (r1, t1)"
      by (cases "Bucket_CreateBucketIfNotExists t h p")
    from wf_CreateBucketIfNotExists [OF Cons.prems(1), of h p] step
    have t1: "wf_bucket (root t1)" by simp
    show ?thesis
    proof (cases r1)
      case (Inl e)
      with Cons.prems(2) False h step t1 show ?thesis by simp
    next
      case (Inr b1)
      with Cons.prems(2) False h step
      have "setBucketIfNotExist_loop True t1 (i + 1) (Some b1) ps = Ret (r, t')"
        by simp
      from Cons.IH [OF t1 this] show ?thesis .
    qed
  qed
qed

lemma wf_setBucketIfNotExist:
  "wf_bucket (root t) \<Longrightarrow> setBucketIfNotExist True t path = Ret (r, t') \<Longrightarrow> wf_bucket (root t')"
  by (auto simp: setBucketIfNotExist_def dest: wf_setBucketIfNotExist_loop
           split: outcome.splits prod.splits sum.splits option.splits)

lemma wf_body:
  assumes "wf_bucket (root t)" "tx s = Some t" "exec x s = Ret s'"
  shows "\<exists>t'. tx s' = Some t' \<and> wf_bucket (root t')"
proof (cases x)
  case (OpNextSeq path)
  with assms show ?thesis
    using wf_NextSequence
    by (auto simp: after_def NextSeq_def run_Update_bound [OF assms(2)] NextSeq_body_def
             dest!: wf_setBucketIfNotExist [OF assms(1)]
             split: outcome.splits prod.splits sum.splits) (metis snd_conv)+
next
  case (OpWrite path key v)
  with assms show ?thesis
    using wf_Put
    by (auto simp: after_def Write_def run_Update_bound [OF assms(2)] Write_body_def
             dest!: wf_setBucketIfNotExist [OF assms(1)]
             split: outcome.splits prod.splits sum.splits option.splits) (metis snd_conv)+
next
  case (OpDeleteKey path key)
  with assms show ?thesis
    using wf_Delete
    by (auto simp: after_def DeleteKey_def run_Update_bound [OF assms(2)] DeleteKey_body_def
             dest!: wf_setBucketIfNotExist [OF assms(1)]
             split: outcome.splits prod.splits sum.splits option.splits) (metis snd_conv)+
next
  case (OpCreateBucket path)
  with assms show ?thesis
    by (auto simp: after_def CreateBucket_def run_Update_bound [OF assms(2)] CreateBucket_body_def
             dest!: wf_setBucketIfNotExist [OF assms(1)]
             split: outcome.splits prod.splits sum.splits)
next
  case (OpDeleteBucket path)
  with assms show ?thesis
    using wf_DeleteBucket [OF assms(1)]
    by (auto simp: after_def DeleteBucket_def run_Update_bound [OF assms(2)] DeleteBucket_body_def
             Tx_DeleteBucket_def
             split: outcome.splits prod.splits sum.splits if_splits) (metis snd_conv)+
qed (use assms in \<open>auto simp: after_def Read_def List_def KeyExists_def ListKeys_def PrefixExists_def
        ReadScan_def BucketExists_def ListBuckets_def run_View_bound [OF assms(2)]
        Read_body_def List_body_def KeyExists_body_def ListKeys_body_def PrefixExists_body_def
        ReadScan_body_def BucketExists_body_def ListBuckets_body_def
        split: outcome.splits prod.splits sum.splits option.splits if_splits\<close>)


lemma wf_run_ops:
  "wf_bucket (root t) \<Longrightarrow> tx s = Some t \<Longrightarrow> run_ops xs s = Ret s'
   \<Longrightarrow> \<exists>t'. tx s' = Some t' \<and> wf_bucket (root t')"
proof (induction xs arbitrary: s t)
  case Nil
  then show ?case by simp
next
  case (Cons x xs)
  from Cons.prems(3) obtain s1 where s1: "exec x s = Ret s1" "run_ops xs s1 = Ret s'"
    by (auto split: outcome.splits)
  from wf_body [OF Cons.prems(1,2) s1(1)] obtain t1 where "tx s1 = Some t1" "wf_bucket (root t1)"
    by auto
  from Cons.IH [OF this(2,1) s1(2)] show ?case .
qed

lemma wf_committed: "wf_bucket b \<Longrightarrow> wf_bucket (committed b)"
proof (induction rule: wf_bucket.induct)
  case (1 es sq)
  show ?case
  proof (rule wf_bucketI)
    show "sorted_wrt (<) (map fst (entries (committed (Bucket sq es))))"
      using 1(1) by (simp add: comp_def)
    show "[] \<notin> set (map fst (entries (committed (Bucket sq es))))"
      using 1(2) by (simp add: comp_def)
    show "wf_bucket c" if "(k, Sub c) \<in> set (entries (committed (Bucket sq es)))" for k c
    proof -
      from that obtain n where n: "(k, n) \<in> set es" "committed_node n = Sub c" by auto
      then obtain d where "n = Sub d" "c = committed d" by (cases n) auto
      with n 1(4) show ?thesis by blast
    qed
  qed
qed

lemma wf_write_session:
  assumes "wf_bucket db" "run_ops xs (WriteSession db) = Ret s"
  shows "wf_bucket (write_closer s) \<and> (\<exists>t. tx s = Some t \<and> wf_bucket (root t))"
proof -
  have 1: "wf_bucket (root \<lparr>writable = True, root = db\<rparr>)" using assms(1) by simp
  have 2: "tx (WriteSession db) = Some \<lparr>writable = True, root = db\<rparr>"
    by (simp add: WriteSession_def)
  from wf_run_ops [OF 1 2 assms(2)] obtain t where t: "tx s = Some t" "wf_bucket (root t)" by auto
  from run_ops_bound [OF 2 assms(2)] have "store_db s = db" by (simp add: WriteSession_def)
  with t assms(1) show ?thesis
    by (simp add: write_closer_def Tx_Rollback_def Tx_Commit_def wf_committed)
qed

lemma wf_read_session:
  assumes "wf_bucket db" "run_ops xs (ReadSession db) = Ret s"
  shows "read_closer s = db \<and> (\<exists>t. tx s = Some t \<and> wf_bucket (root t))"
proof -
  have 1: "wf_bucket (root \<lparr>writable = False, root = db\<rparr>)" using assms(1) by simp
  have 2: "tx (ReadSession db) = Some \<lparr>writable = False, root = db\<rparr>"
    by (simp add: ReadSession_def)
  from wf_run_ops [OF 1 2 assms(2)] obtain t where t: "tx s = Some t" "wf_bucket (root t)" by auto
  from run_ops_bound [OF 2 assms(2)] have "store_db s = db" by (simp add: ReadSession_def)
  with t show ?thesis by (simp add: read_closer_def Tx_Rollback_def)
qed

lemma wf_resolved:
  assumes "wf_bucket (root t)" "setBucket True t path = Ret (Inr b)"
  shows "sorted_wrt (<) (map fst (ents_at t b)) \<and> [] \<notin> set (map fst (ents_at t b))
       \<and> sorted (map fst (ents_at t b))"
proof -
  from assms(2) obtain c where c: "bucket_at (root t) b = Some c"
    by (auto simp: setBucket_bound split: if_splits)
  from wf_bucket_at [OF assms(1) c] have w: "wf_bucket c" .
  have e: "ents_at t b = entries c" by (simp add: ents_at_def c)
  from wf_sorted [OF w] have "sorted (map fst (entries c))"
    by (rule sorted_wrt_mono_rel [rotated]) simp
  with wf_sorted [OF w] wf_keys [OF w] e show ?thesis by simp
qed

subsection \<open>The listing loops in closed form\<close>

lemma keys_loop_pos:
  "0 < i \<Longrightarrow> i \<le> pageSize \<Longrightarrow> n = pageSize - i \<Longrightarrow>
   keys_loop i tok c keys = (keys @ map fst (take n (tl c)), drop n c)"
proof (induction n arbitrary: i c keys)
  case 0
  then show ?case by (subst keys_loop.simps) simp
next
  case (Suc n)
  then have lt: "i < pageSize" and n: "n = pageSize - (i + 1)" by simp_all
  show ?case
  proof (cases "tl c")
    case Nil
    then have "drop (Suc n) c = []" by (cases c) simp_all
    with Nil lt Suc.prems show ?thesis
      by (subst keys_loop.simps) (simp add: Cursor_Next_def cur_kv_def)
  next
    case (Cons e r)
    then obtain x where c: "c = x # e # r" by (cases c) simp_all
    have "keys_loop (i + 1) tok (tl c) (keys @ [fst e])
            = ((keys @ [fst e]) @ map fst (take n (tl (tl c))), drop n (tl c))"
      using Suc.IH [of "i + 1" "tl c" "keys @ [fst e]"] lt n by simp
    with Cons lt Suc.prems(1,2) Suc.prems(3) [symmetric] c show ?thesis
      by (subst keys_loop.simps) (simp add: Cursor_Next_def cur_kv_def)
  qed
qed

lemma keys_loop_0:
  "keys_loop 0 tok c [] =
     (map fst (take pageSize (start_at tok c)), drop (pageSize - 1) (start_at tok c))"
proof (cases "start_at tok c")
  case Nil
  then show ?thesis
    by (subst keys_loop.simps)
       (auto simp: start_at_def Cursor_First_def Cursor_Seek_def cur_kv_def pageSize_def)
next
  case (Cons e r)
  have "keys_loop 1 tok (e # r) [fst e] = ([fst e] @ map fst (take (pageSize - 1) (tl (e # r))), drop (pageSize - 1) (e # r))"
    by (rule keys_loop_pos) (simp_all add: pageSize_def)
  moreover have "take pageSize (e # r) = e # take (pageSize - 1) r"
    by (simp add: pageSize_def)
  ultimately show ?thesis using Cons
    by (subst keys_loop.simps)
       (auto simp: start_at_def Cursor_First_def Cursor_Seek_def cur_kv_def pageSize_def)
qed

lemma list_loop_pos:
  "0 < i \<Longrightarrow> i \<le> pageSize \<Longrightarrow> n = pageSize - i \<Longrightarrow>
   list_loop i tok c keys vals
     = (keys @ map fst (take n (tl c)), vals @ map (cur_val \<circ> snd) (take n (tl c)), drop n c)"
proof (induction n arbitrary: i c keys vals)
  case 0
  then show ?case by (subst list_loop.simps) simp
next
  case (Suc n)
  then have lt: "i < pageSize" and n: "n = pageSize - (i + 1)" by simp_all
  show ?case
  proof (cases "tl c")
    case Nil
    then have "drop (Suc n) c = []" by (cases c) simp_all
    with Nil lt Suc.prems show ?thesis
      by (subst list_loop.simps) (simp add: Cursor_Next_def cur_kv_def)
  next
    case (Cons e r)
    then obtain x where c: "c = x # e # r" by (cases c) simp_all
    have "list_loop (i + 1) tok (tl c) (keys @ [fst e]) (vals @ [cur_val (snd e)])
            = ((keys @ [fst e]) @ map fst (take n (tl (tl c))),
               (vals @ [cur_val (snd e)]) @ map (cur_val \<circ> snd) (take n (tl (tl c))), drop n (tl c))"
      using Suc.IH [of "i + 1" "tl c" "keys @ [fst e]" "vals @ [cur_val (snd e)]"] lt n by simp
    with Cons lt Suc.prems(1,2) Suc.prems(3) [symmetric] c show ?thesis
      by (subst list_loop.simps) (simp add: Cursor_Next_def cur_kv_def)
  qed
qed

lemma list_loop_0:
  "list_loop 0 tok c [] [] =
     (map fst (take pageSize (start_at tok c)),
      map (cur_val \<circ> snd) (take pageSize (start_at tok c)),
      drop (pageSize - 1) (start_at tok c))"
proof (cases "start_at tok c")
  case Nil
  then show ?thesis
    by (subst list_loop.simps)
       (auto simp: start_at_def Cursor_First_def Cursor_Seek_def cur_kv_def pageSize_def)
next
  case (Cons e r)
  have "list_loop 1 tok (e # r) [fst e] [cur_val (snd e)]
          = ([fst e] @ map fst (take (pageSize - 1) (tl (e # r))),
             [cur_val (snd e)] @ map (cur_val \<circ> snd) (take (pageSize - 1) (tl (e # r))),
             drop (pageSize - 1) (e # r))"
    by (rule list_loop_pos) (simp_all add: pageSize_def)
  moreover have "take pageSize (e # r) = e # take (pageSize - 1) r"
    by (simp add: pageSize_def)
  ultimately show ?thesis using Cons
    by (subst list_loop.simps)
       (auto simp: start_at_def Cursor_First_def Cursor_Seek_def cur_kv_def pageSize_def)
qed

lemma next_token_drop: "next_token (drop (pageSize - Suc 0) c) = first_key (drop pageSize c)"
proof -
  have "tl (drop n c) = drop (Suc n) c" for n
    by (simp add: drop_Suc tl_drop)
  from this [of 99] have "tl (drop (pageSize - Suc 0) c) = drop pageSize c"
    by (simp add: pageSize_def)
  then show ?thesis
    by (simp add: next_token_def Cursor_Next_def cur_kv_def first_key_def split: list.splits)
qed


lemma List_resolved:
  assumes "tx s = Some t" "setBucket True t path = Ret (Inr b)"
  shows "List path tok s =
           Ret ((map fst (take pageSize (start_at tok (ents_at t b))),
                 map (cur_val \<circ> snd) (take pageSize (start_at tok (ents_at t b))),
                 first_key (drop pageSize (start_at tok (ents_at t b))), None),
                s\<lparr>tx := Some t, err := None\<rparr>)"
  using assms(2)
  by (simp add: List_def run_View_bound [OF assms(1)] List_body_def Bucket_Cursor_def
        list_loop_0 next_token_drop)

lemma ListKeys_resolved:
  assumes "tx s = Some t" "setBucket True t path = Ret (Inr b)"
  shows "ListKeys path tok s =
           Ret ((map fst (take pageSize (start_at tok (ents_at t b))),
                 first_key (drop pageSize (start_at tok (ents_at t b))), None),
                s\<lparr>tx := Some t, err := None\<rparr>)"
  using assms(2)
  by (simp add: ListKeys_def run_View_bound [OF assms(1)] ListKeys_body_def Bucket_Cursor_def
        keys_loop_0 next_token_drop)

lemma setBucket_Inr_nonempty: "setBucket bound t path = Ret (Inr b) \<Longrightarrow> path \<noteq> []"
  by (auto simp: setBucket_def)

lemma ListBuckets_resolved:
  assumes "tx s = Some t" "setBucket True t path = Ret (Inr b)"
  shows "ListBuckets path tok s =
           Ret ((map fst (take pageSize (start_at tok (ents_at t b))),
                 first_key (drop pageSize (start_at tok (ents_at t b))), None),
                s\<lparr>tx := Some t, err := None\<rparr>)"
  using assms(2) setBucket_Inr_nonempty [OF assms(2)]
  by (simp add: ListBuckets_def run_View_bound [OF assms(1)] ListBuckets_body_def
        Bucket_Cursor_def keys_loop_0 next_token_drop)


subsection \<open>Page size\<close>

text \<open>
  Claim C7 says that every call of List, ListKeys or ListBuckets returns at most 100
  entries, the call of ListBuckets with an empty path included. With the empty path
  \<^verbatim>\<open>ListBuckets\<close> appends every top-level bucket that \<^verbatim>\<open>tx.ForEach\<close> visits: after
  101 top-level buckets have been created it returns 101 names and an empty token.
\<close>

theorem ListBuckets_root_unpaged:
  "(case run_ops many_buckets (WriteSession empty_db) of
      Panic \<Rightarrow> Panic
    | Ret s \<Rightarrow>
        (case ListBuckets [] [] s of
           Panic \<Rightarrow> Panic
         | Ret ((buckets, tok, e), s') \<Rightarrow> Ret (length buckets, tok, e)))
   = Ret (101, [], None)"
  by code_simp

text \<open>
  Claim C7, amended. Every call of \<^verbatim>\<open>List\<close>, of \<^verbatim>\<open>ListKeys\<close> and of \<^verbatim>\<open>ListBuckets\<close>
  with a non-empty path returns at most 100 entries; \<^verbatim>\<open>ListBuckets\<close> with the empty
  path returns all top-level buckets of the transaction in one call, with an empty token.
\<close>

theorem page_size_bound:
  "(List path tok s = Ret ((keys, vals, nt, e), s') \<longrightarrow> length keys \<le> 100 \<and> length vals \<le> 100)
   \<and> (ListKeys path tok s = Ret ((keys2, nt2, e2), s2) \<longrightarrow> length keys2 \<le> 100)
   \<and> (path \<noteq> [] \<and> ListBuckets path tok s = Ret ((keys3, nt3, e3), s3) \<longrightarrow> length keys3 \<le> 100)
   \<and> map_outcome fst (ListBuckets [] tok s)
       = Ret (map fst (entries (case tx s of None \<Rightarrow> store_db s | Some t \<Rightarrow> root t)), [], None)"
proof (cases "tx s")
  case None
  then show ?thesis
    by (auto simp: List_def ListKeys_def ListBuckets_def run_View_def DB_View_def List_body_def
          ListKeys_body_def ListBuckets_body_def setBucket_unbound Tx_ForEach_def ents_at_def
          split: if_splits)
next
  case (Some t)
  have root: "map_outcome fst (ListBuckets [] tok s) = Ret (map fst (entries (root t)), [], None)"
    by (simp add: ListBuckets_def run_View_bound [OF Some] ListBuckets_body_def Tx_ForEach_def
          ents_at_def)
  show ?thesis
  proof (cases "path \<noteq> [] \<and> bucket_at (root t) path \<noteq> None")
    case True
    then have r: "setBucket True t path = Ret (Inr path)" by (simp add: setBucket_bound)
    show ?thesis
      using root Some True
      by (auto simp: List_resolved [OF Some r] ListKeys_resolved [OF Some r]
            ListBuckets_resolved [OF Some r] pageSize_def)
  next
    case False
    then have r: "setBucket True t path = Ret (Inl ErrPathNotFound)" by (simp add: setBucket_bound)
    show ?thesis
      using root Some r
      by (auto simp: List_def ListKeys_def ListBuckets_def run_View_bound [OF Some] List_body_def
            ListKeys_body_def ListBuckets_body_def split: if_splits)
  qed
qed

theorem page_size_bound_witness:
  "List [''a''] [] (session_one_key None)
      = Ret (([''k''], [Some ''v''], [], None), session_one_key None)
   \<and> ListKeys [''a''] [] (session_one_key None) = Ret (([''k''], [], None), session_one_key None)
   \<and> ListBuckets [''a''] [] (session_one_key None) = Ret (([''k''], [], None), session_one_key None)
   \<and> length [''k''] \<le> (100::nat) \<and> length [Some ''v''] \<le> (100::nat)
   \<and> map_outcome fst (ListBuckets [] [] (session_one_key None)) = Ret ([''a''], [], None)"
proof -
  have h1: "List [''a''] [] (session_one_key None)
      = Ret (([''k''], [Some ''v''], [], None), session_one_key None)" by code_simp
  have h2: "ListKeys [''a''] [] (session_one_key None) = Ret (([''k''], [], None), session_one_key None)"
    by code_simp
  have h3: "ListBuckets [''a''] [] (session_one_key None) = Ret (([''k''], [], None), session_one_key None)"
    by code_simp
  have h4: "map fst (entries (case tx (session_one_key None) of None \<Rightarrow> store_db (session_one_key None) | Some t \<Rightarrow> root t)) = [''a'']"
    by code_simp
  show ?thesis
    using h1 h2 h3 h4
      page_size_bound [of "[''a'']" "[]" "session_one_key None" "[''k'']" "[Some ''v'']" "[]" None
        "session_one_key None" "[''k'']" "[]" None "session_one_key None" "[''k'']" "[]" None
        "session_one_key None"]
    by simp
qed

subsection \<open>Paging through a bucket\<close>

lemma seek_suffix:
  assumes "sorted_wrt (<) (map fst (pre @ r))" "r \<noteq> []"
  shows "seek (first_key r) (pre @ r) = r"
proof -
  obtain e r' where r: "r = e # r'" using assms(2) by (cases r) auto
  have "\<And>x. x \<in> set pre \<Longrightarrow> fst x < fst e"
    using assms(1) r by (auto simp: sorted_wrt_append)
  then have "dropWhile (\<lambda>x. fst x < fst e) (pre @ r) = dropWhile (\<lambda>x. fst x < fst e) r"
    by (rule dropWhile_append2)
  then show ?thesis using r by (simp add: seek_def first_key_def)
qed

lemma collect_pages:
  assumes page: "\<And>tok s. tx s = Some t \<Longrightarrow>
            page tok s = Some ((map g (take pageSize (start_at tok es)),
                                first_key (drop pageSize (start_at tok es))),
                               s\<lparr>tx := Some t, err := None\<rparr>)"
    and sorted: "sorted_wrt (<) (map fst es)"
    and nonempty: "[] \<notin> set (map fst es)"
  shows "tx s = Some t \<Longrightarrow> es = pre @ r \<Longrightarrow> (pre = [] \<and> tok = []) \<or> (r \<noteq> [] \<and> tok = first_key r)
         \<Longrightarrow> length r < fuel \<Longrightarrow> collect fuel page tok s = Some (map g r)"
proof (induction fuel arbitrary: s tok pre r)
  case 0
  then show ?case by simp
next
  case (Suc fuel)
  have key_ne: "first_key q \<noteq> []" if "q \<noteq> []" "set q \<subseteq> set es" for q
    using that nonempty by (cases q) (force simp: first_key_def)+
  have start: "start_at tok es = r"
  proof (cases "pre = [] \<and> tok = []")
    case True
    with Suc.prems(2) show ?thesis by (simp add: start_at_def)
  next
    case False
    with Suc.prems(3) have r: "r \<noteq> []" "tok = first_key r" by auto
    have "tok \<noteq> []" using key_ne [of r] r Suc.prems(2) by auto
    then show ?thesis
      using seek_suffix [of pre r] sorted r Suc.prems(2) by (simp add: start_at_def)
  qed
  let ?r' = "drop pageSize r"
  let ?s' = "s\<lparr>tx := Some t, err := None\<rparr>"
  have pg: "page tok s = Some ((map g (take pageSize r), first_key ?r'), ?s')"
    using page [OF Suc.prems(1)] start by simp
  show ?case
  proof (cases "?r' = []")
    case True
    then have "take pageSize r = r" by simp
    with pg True show ?thesis by (simp add: first_key_def)
  next
    case False
    have sub: "set ?r' \<subseteq> set es" using Suc.prems(2) by (auto dest: in_set_dropD)
    have ne: "first_key ?r' \<noteq> []" by (rule key_ne [OF False sub])
    have es': "es = (pre @ take pageSize r) @ ?r'" using Suc.prems(2) by simp
    have len: "length ?r' < fuel" using Suc.prems(4) False by (simp add: pageSize_def)
    have "collect fuel page (first_key ?r') ?s' = Some (map g ?r')"
      by (rule Suc.IH [OF _ es' _ len]) (use False in simp_all)
    with pg ne have "collect (Suc fuel) page tok s = Some (map g (take pageSize r) @ map g ?r')"
      by simp
    then show ?thesis by (simp flip: map_append)
  qed
qed

text \<open>
  For a path that resolves to a bucket whose entries are fixed, calling \<^verbatim>\<open>List\<close>,
  \<^verbatim>\<open>ListKeys\<close> or \<^verbatim>\<open>ListBuckets\<close> with the empty token and then with each returned
  continuation token until the token is empty terminates and yields the keys of all
  entries of the bucket, those of plain values and those of nested buckets alike, each
  once, in the ascending key order in which the bucket holds them. The engine keeps the
  keys strictly ascending and never stores an empty key (\<open>wf_write_session\<close>,
  \<open>wf_resolved\<close>). More calls than the bucket has entries are never needed.
\<close>

lemma paging_yields_all_entries:
  assumes "tx s = Some t" "setBucket True t path = Ret (Inr b)" "es = ents_at t b"
    "sorted_wrt (<) (map fst es)" "[] \<notin> set (map fst es)" "length es < fuel"
  shows "collect fuel (ListKeys_page path) [] s = Some (map fst es)
       \<and> collect fuel (List_page path) [] s = Some (map kv_of es)
       \<and> collect fuel (ListBuckets_page path) [] s = Some (map fst es)"
proof -
  have c: "(([]::ents) = [] \<and> ([]::bytes) = []) \<or> (es \<noteq> [] \<and> [] = first_key es)" by simp
  have e: "es = [] @ es" by simp
  have 1: "collect fuel (ListKeys_page path) [] s = Some (map fst es)"
    by (rule collect_pages [where t = t, OF _ assms(4,5,1) e c assms(6)])
       (simp add: ListKeys_page_def ListKeys_resolved [OF _ assms(2)] assms(3))
  have 2: "collect fuel (List_page path) [] s = Some (map kv_of es)"
    by (rule collect_pages [where t = t, OF _ assms(4,5,1) e c assms(6)])
       (simp add: List_page_def List_resolved [OF _ assms(2)] assms(3) zip_map_map kv_of_def
          zip_same_conv_map)
  have 3: "collect fuel (ListBuckets_page path) [] s = Some (map fst es)"
    by (rule collect_pages [where t = t, OF _ assms(4,5,1) e c assms(6)])
       (simp add: ListBuckets_page_def ListBuckets_resolved [OF _ assms(2)] assms(3))
  from 1 2 3 show ?thesis by simp
qed


lemma many_keys_sorted: "sorted_wrt (<) (map fst many_keys)"
proof -
  have "sorted_wrt (\<lambda>x y. [char_of x] < [char_of y]) [1..<102::nat]"
    by (rule sorted_wrt_mono_rel [OF _ sorted_wrt_upt]) (simp add: less_char_def)
  then show ?thesis by (simp add: many_keys_def sorted_wrt_map comp_def)
qed

lemma paging_yields_all_entries_example:
  "tx session_many_keys = Some tx_many_keys
   \<and> setBucket True tx_many_keys [''a''] = Ret (Inr [''a''])
   \<and> many_keys = ents_at tx_many_keys [''a'']
   \<and> sorted_wrt (<) (map fst many_keys)
   \<and> [] \<notin> set (map fst many_keys)
   \<and> length many_keys = 101
   \<and> collect 102 (ListKeys_page [''a'']) [] session_many_keys = Some (map fst many_keys)
   \<and> collect 102 (List_page [''a'']) [] session_many_keys = Some (map kv_of many_keys)
   \<and> collect 102 (ListBuckets_page [''a'']) [] session_many_keys = Some (map fst many_keys)"
proof -
  have h1: "tx session_many_keys = Some tx_many_keys" by (simp add: session_many_keys_def)
  have h3: "many_keys = ents_at tx_many_keys [''a'']"
    by (simp add: ents_at_def tx_many_keys_def find_ent_def seek_def)
  have h2: "setBucket True tx_many_keys [''a''] = Ret (Inr [''a''])"
    by (simp add: setBucket_bound tx_many_keys_def find_ent_def seek_def)
  have h4: "sorted_wrt (<) (map fst many_keys)" by (rule many_keys_sorted)
  have h5: "[] \<notin> set (map fst many_keys)" by (auto simp: many_keys_def)
  have h6: "length many_keys = 101" by (simp add: many_keys_def)
  then have h7: "length many_keys < 102" by simp
  show ?thesis
    using h1 h2 h3 h4 h5 h6 paging_yields_all_entries [OF h1 h2 h3 h4 h5 h7] by simp
qed

text \<open>
  Claim C6. Paging through \<^verbatim>\<open>List\<close>, \<^verbatim>\<open>ListKeys\<close> or \<^verbatim>\<open>ListBuckets\<close> (on a non-empty
  path) is said to yield every child of the container exactly once, in ascending key
  order, and no other entries. The children that \<^verbatim>\<open>ListBuckets\<close> lists are the nested
  buckets. After three plain values \<^verbatim>\<open>ab\<close>, \<^verbatim>\<open>ac\<close>, \<^verbatim>\<open>ba\<close> have been written and
  the bucket \<^verbatim>\<open>b\<close> has been created under \<^verbatim>\<open>a\<close>, paging through
  \<^verbatim>\<open>ListBuckets(["a"])\<close> yields all four keys, of which \<^verbatim>\<open>BucketExists\<close> confirms
  only \<^verbatim>\<open>b\<close> as a bucket.
\<close>

theorem ListBuckets_lists_plain_keys:
  "run_ops mixed_ops (WriteSession empty_db) = Ret session_mixed
   \<and> collect 5 (ListBuckets_page [''a'']) [] session_mixed = Some [''ab'', ''ac'', ''b'', ''ba'']
   \<and> map (\<lambda>k. map_outcome fst (BucketExists [''a'', k] session_mixed)) [''ab'', ''ac'', ''b'', ''ba'']
       = [Ret False, Ret False, Ret True, Ret False]"
  by code_simp

subsection \<open>Prefix scans\<close>

lemma bytes_HasPrefix_iff: "bytes_HasPrefix k p \<longleftrightarrow> (\<exists>r. k = p @ r)"
proof
  assume "bytes_HasPrefix k p"
  then have "k = p @ drop (length p) k"
    by (metis append_take_drop_id bytes_HasPrefix_def)
  then show "\<exists>r. k = p @ r" ..
next
  assume "\<exists>r. k = p @ r"
  then show "bytes_HasPrefix k p" by (auto simp: bytes_HasPrefix_def)
qed

lemma strings_HasPrefix_eq: "strings_HasPrefix k p = bytes_HasPrefix k p"
  by (simp add: strings_HasPrefix_def bytes_HasPrefix_def)

lemma prefix_not_less: "\<not> p @ r < (p::bytes)"
  by (induction p) auto

lemma prefix_after:
  "\<not> k1 < p \<Longrightarrow> \<not> bytes_HasPrefix k1 p \<Longrightarrow> k1 \<le> k2 \<Longrightarrow> \<not> bytes_HasPrefix k2 (p::bytes)"
proof (induction p arbitrary: k1 k2)
  case Nil
  then show ?case by (simp add: bytes_HasPrefix_def)
next
  case (Cons a p)
  show ?case
  proof
    assume "bytes_HasPrefix k2 (a # p)"
    then obtain r where k2: "k2 = a # p @ r" by (auto simp: bytes_HasPrefix_iff)
    from Cons.prems(1) obtain b k1' where k1: "k1 = b # k1'" by (cases k1) auto
    from Cons.prems(3) k1 k2 have le: "b < a \<or> (b = a \<and> k1' \<le> p @ r)"
      by auto
    from Cons.prems(1) k1 have "\<not> b < a" by auto
    with le have ba: "b = a" and le': "k1' \<le> p @ r" by auto
    from Cons.prems(1) k1 ba have 1: "\<not> k1' < p" by auto
    from Cons.prems(2) k1 ba have 2: "\<not> bytes_HasPrefix k1' p"
      by (auto simp: bytes_HasPrefix_iff)
    from Cons.IH [OF 1 2 le'] show False by (simp add: bytes_HasPrefix_iff)
  qed
qed

lemma takeWhile_filter_sorted:
  assumes "sorted (map fst es)" "\<forall>e \<in> set es. \<not> fst e < pfx"
  shows "takeWhile (matches pfx) es = filter (matches pfx) es"
  using assms
proof (induction es)
  case Nil
  then show ?case by simp
next
  case (Cons e es)
  show ?case
  proof (cases "matches pfx e")
    case True
    with Cons show ?thesis by simp
  next
    case False
    have "\<not> matches pfx x" if "x \<in> set es" for x
    proof -
      from Cons.prems(1) that have "fst e \<le> fst x" by auto
      with prefix_after [of "fst e" pfx "fst x"] False Cons.prems(2)
      show ?thesis by (simp add: matches_def)
    qed
    then have "filter (matches pfx) es = []" by (simp add: filter_empty_conv)
    with False show ?thesis by simp
  qed
qed

lemma scan_sorted:
  assumes "sorted (map fst es)"
  shows "takeWhile (matches pfx) (seek pfx es) = filter (matches pfx) es"
  using assms
proof (induction es)
  case Nil
  then show ?case by (simp add: seek_def)
next
  case (Cons e es)
  show ?case
  proof (cases "fst e < pfx")
    case True
    then have "\<not> matches pfx e"
      using prefix_not_less by (auto simp: matches_def bytes_HasPrefix_iff)
    with True Cons show ?thesis by (simp add: seek_def)
  next
    case False
    have "\<forall>x \<in> set (e # es). \<not> fst x < pfx"
      using False Cons.prems by (auto simp: not_less intro: order_trans)
    from takeWhile_filter_sorted [OF Cons.prems this] False show ?thesis
      by (simp add: seek_def)
  qed
qed

lemma prefix_loop_closed:
  "prefix_loop pfx (cur_kv c) c = (case c of [] \<Rightarrow> False | e # _ \<Rightarrow> matches pfx e)"
  by (subst prefix_loop.simps)
     (simp add: cur_kv_def strings_HasPrefix_eq matches_def split: list.splits)

lemma scan_loop_closed:
  "scan_loop pfx (cur_kv c) c keys vals
     = (keys @ map fst (takeWhile (matches pfx) c),
        vals @ map (cur_val \<circ> snd) (takeWhile (matches pfx) c))"
proof (induction c arbitrary: keys vals)
  case Nil
  then show ?case by (subst scan_loop.simps) (simp add: cur_kv_def)
next
  case (Cons e c)
  show ?case
  proof (cases "matches pfx e")
    case False
    then show ?thesis by (subst scan_loop.simps) (simp add: cur_kv_def matches_def)
  next
    case True
    have "scan_loop pfx (cur_kv c) c (keys @ [fst e]) (vals @ [cur_val (snd e)])
            = ((keys @ [fst e]) @ map fst (takeWhile (matches pfx) c),
               (vals @ [cur_val (snd e)]) @ map (cur_val \<circ> snd) (takeWhile (matches pfx) c))"
      by (rule Cons.IH)
    with True show ?thesis
      by (subst scan_loop.simps) (simp add: cur_kv_def matches_def Cursor_Next_def)
  qed
qed

text \<open>
  Claim C9. On a session bound to a transaction, \<^verbatim>\<open>PrefixExists\<close> returns false with a
  \<^verbatim>\<open>ErrPathNotFound\<close> error when the path does not resolve. When it resolves, the scan
  looks at the entries from the first key at or after the prefix and stops at the first
  key that does not begin with the prefix: \<^verbatim>\<open>PrefixExists\<close> answers whether the first such
  entry matches, \<^verbatim>\<open>ReadScan\<close> returns the run of matching entries from there. The engine
  keeps the keys of a bucket in ascending order (\<open>wf_write_session\<close>,
  \<open>wf_resolved\<close>), and then \<^verbatim>\<open>PrefixExists\<close> is true exactly
  when some key of the bucket begins with the prefix and \<^verbatim>\<open>ReadScan\<close> returns exactly
  the matching keys with their values (nil for a nested bucket), in ascending key order.
  A key begins with a prefix when it is the prefix followed by some bytes; every key
  begins with the empty prefix.
\<close>

theorem prefix_scan:
  assumes "tx s = Some t"
  shows "(setBucket True t path = Ret (Inl e) \<longrightarrow>
            map_outcome fst (PrefixExists path pfx s) = Ret (False, Some ErrPathNotFound)
          \<and> map_outcome fst (ReadScan path pfx s) = Ret ([], [], Some ErrPathNotFound))
       \<and> (setBucket True t path = Ret (Inr b) \<longrightarrow>
            map_outcome fst (PrefixExists path pfx s)
              = Ret (case seek pfx (ents_at t b) of [] \<Rightarrow> False | x # _ \<Rightarrow> matches pfx x, None)
          \<and> map_outcome fst (ReadScan path pfx s)
              = Ret (map fst (takeWhile (matches pfx) (seek pfx (ents_at t b))),
                     map (cur_val \<circ> snd) (takeWhile (matches pfx) (seek pfx (ents_at t b))), None))
       \<and> (setBucket True t path = Ret (Inr b) \<and> sorted (map fst (ents_at t b)) \<longrightarrow>
            map_outcome fst (PrefixExists path pfx s)
              = Ret (\<exists>x \<in> set (ents_at t b). matches pfx x, None)
          \<and> map_outcome fst (ReadScan path pfx s)
              = Ret (map fst (filter (matches pfx) (ents_at t b)),
                     map (cur_val \<circ> snd) (filter (matches pfx) (ents_at t b)), None))
       \<and> (matches pfx (k, n) \<longleftrightarrow> (\<exists>r. k = pfx @ r))
       \<and> matches [] (k, n)"
proof -
  have 1: "map_outcome fst (PrefixExists path pfx s) = Ret (False, Some ErrPathNotFound)
          \<and> map_outcome fst (ReadScan path pfx s) = Ret ([], [], Some ErrPathNotFound)"
    if "setBucket True t path = Ret (Inl e)"
    using that
    by (simp add: PrefixExists_def ReadScan_def run_View_bound [OF assms] PrefixExists_body_def
          ReadScan_body_def)
  have 2: "map_outcome fst (PrefixExists path pfx s)
              = Ret (case seek pfx (ents_at t b) of [] \<Rightarrow> False | x # _ \<Rightarrow> matches pfx x, None)
          \<and> map_outcome fst (ReadScan path pfx s)
              = Ret (map fst (takeWhile (matches pfx) (seek pfx (ents_at t b))),
                     map (cur_val \<circ> snd) (takeWhile (matches pfx) (seek pfx (ents_at t b))), None)"
    if "setBucket True t path = Ret (Inr b)"
    using that
    by (simp add: PrefixExists_def ReadScan_def run_View_bound [OF assms] PrefixExists_body_def
          ReadScan_body_def Cursor_Seek_def Bucket_Cursor_def prefix_loop_closed
          scan_loop_closed)
  have 3: "(case seek pfx es of [] \<Rightarrow> False | x # _ \<Rightarrow> matches pfx x)
             = (\<exists>x \<in> set es. matches pfx x)" if "sorted (map fst es)" for es
  proof -
    have "(case seek pfx es of [] \<Rightarrow> False | x # _ \<Rightarrow> matches pfx x)
            = (takeWhile (matches pfx) (seek pfx es) \<noteq> [])"
      by (simp split: list.splits)
    also have "\<dots> = (filter (matches pfx) es \<noteq> [])"
      by (simp add: scan_sorted [OF that])
    also have "\<dots> = (\<exists>x \<in> set es. matches pfx x)"
      by (simp add: filter_empty_conv)
    finally show ?thesis .
  qed
  show ?thesis
    using 1 2 3 [of "ents_at t b"] scan_sorted [of "ents_at t b" pfx]
    by (simp add: matches_def bytes_HasPrefix_iff)
qed


theorem prefix_scan_witness:
  "tx session_scan = Some tx_scan
   \<and> setBucket True tx_scan [''zz''] = Ret (Inl ErrPathNotFound)
   \<and> map_outcome fst (PrefixExists [''zz''] ''b'' session_scan) = Ret (False, Some ErrPathNotFound)
   \<and> setBucket True tx_scan [''a''] = Ret (Inr [''a''])
   \<and> sorted (map fst (ents_at tx_scan [''a'']))
   \<and> map_outcome fst (PrefixExists [''a''] ''b'' session_scan) = Ret (True, None)
   \<and> map_outcome fst (ReadScan [''a''] ''b'' session_scan) = Ret ([''b'', ''ba''], [None, Some ''3''], None)
   \<and> matches ''b'' (''ba'', Leaf (Some ''3''))"
proof -
  have h1: "tx session_scan = Some tx_scan" by (simp add: session_scan_def)
  have h2: "setBucket True tx_scan [''zz''] = Ret (Inl ErrPathNotFound)" by code_simp
  have h3: "setBucket True tx_scan [''a''] = Ret (Inr [''a''])" by code_simp
  have h4: "sorted (map fst (ents_at tx_scan [''a'']))" by code_simp
  have r1: "(\<exists>x \<in> set (ents_at tx_scan [''a'']). matches ''b'' x) = True" by code_simp
  have r2: "map fst (filter (matches ''b'') (ents_at tx_scan [''a''])) = [''b'', ''ba'']"
    by code_simp
  have r3: "map (cur_val \<circ> snd) (filter (matches ''b'') (ents_at tx_scan [''a''])) = [None, Some ''3'']"
    by code_simp
  have r4: "\<exists>r. ''ba'' = ''b'' @ r" by simp
  from prefix_scan [OF h1, where path = "[''zz'']" and e = ErrPathNotFound and pfx = "''b''"] h2
  have a: "map_outcome fst (PrefixExists [''zz''] ''b'' session_scan) = Ret (False, Some ErrPathNotFound)"
    by blast
  from prefix_scan [OF h1, where path = "[''a'']" and b = "[''a'']" and pfx = "''b''"
      and k = "''ba''" and n = "Leaf (Some ''3'')"] h3 h4 r4
  have b: "map_outcome fst (PrefixExists [''a''] ''b'' session_scan)
              = Ret (\<exists>x \<in> set (ents_at tx_scan [''a'']). matches ''b'' x, None)"
    and c: "map_outcome fst (ReadScan [''a''] ''b'' session_scan)
              = Ret (map fst (filter (matches ''b'') (ents_at tx_scan [''a''])),
                     map (cur_val \<circ> snd) (filter (matches ''b'') (ents_at tx_scan [''a''])), None)"
    and d: "matches ''b'' (''ba'', Leaf (Some ''3''))"
    by blast+
  show ?thesis using h1 h2 h3 h4 a b c d r1 r2 r3 by (simp only: simp_thms)
qed

subsection \<open>Write followed by Read\<close>

lemma bucket_at_modify_at:
  "bucket_at r h = Some b \<Longrightarrow> bucket_at (modify_at f h r) h = Some (f b)"
proof (induction h arbitrary: r)
  case Nil
  then show ?case by simp
next
  case (Cons p ps)
  then obtain c where c: "find_ent p (entries r) = Some (Sub c)" "bucket_at c ps = Some b"
    by (auto split: option.splits node.splits)
  from Cons.IH [OF c(2)] c(1) show ?case
    by (simp add: find_ent_put_ent_same)
qed

lemma find_ent_Nil: "find_ent k [] = None"
  by (simp add: find_ent_def seek_def)

lemma creatable_empty: "[] \<notin> set ps \<Longrightarrow> creatable (Bucket sq []) ps"
  by (cases ps) (auto simp: find_ent_Nil)

lemma bucket_at_empty: "bucket_at (Bucket sq []) ps = (if ps = [] then Some (Bucket sq []) else None)"
  by (cases ps) (auto simp: find_ent_Nil)

lemma CreateBucketIfNotExists_step:
  assumes "writable t" "p \<noteq> []" "bucket_at (root t) h = Some b"
    "case find_ent p (entries b) of Some (Leaf v) \<Rightarrow> False | _ \<Rightarrow> True"
  shows "\<exists>t1. Bucket_CreateBucketIfNotExists t h p = (Inr (h @ [p]), t1) \<and> writable t1
            \<and> (case find_ent p (entries b) of
                  Some (Sub c) \<Rightarrow> t1 = t \<and> bucket_at (root t1) (h @ [p]) = Some c
                | _ \<Rightarrow> bucket_at (root t1) (h @ [p]) = Some (Bucket 0 []))"
proof (cases "find_ent p (entries b)")
  case None
  let ?t1 = "t\<lparr>root := modify_at (map_ents (put_ent p (Sub (Bucket 0 [])))) h (root t)\<rparr>"
  have "Bucket_CreateBucketIfNotExists t h p = (Inr (h @ [p]), ?t1)"
    using assms(1-3) None
    by (simp add: Bucket_CreateBucketIfNotExists_def Bucket_CreateBucket_def ents_at_def)
  moreover have "bucket_at (root ?t1) (h @ [p]) = Some (Bucket 0 [])"
    using assms(3)
    by (simp add: bucket_at_append bucket_at_modify_at map_ents_def find_ent_put_ent_same)
  ultimately show ?thesis using None assms(1) by simp
next
  case (Some n)
  with assms(4) obtain c where n: "n = Sub c" by (cases n) auto
  have "Bucket_CreateBucketIfNotExists t h p = (Inr (h @ [p]), t)"
    using assms(1-3) Some n
    by (simp add: Bucket_CreateBucketIfNotExists_def Bucket_CreateBucket_def ents_at_def)
  moreover have "bucket_at (root t) (h @ [p]) = Some c"
    using assms(3) Some n by (simp add: bucket_at_append)
  ultimately show ?thesis using Some n assms(1) by simp
qed

lemma create_loop:
  "writable t \<Longrightarrow> bucket_at (root t) h = Some b \<Longrightarrow> creatable b ps \<Longrightarrow>
   \<exists>t'. setBucketIfNotExist_loop True t (Suc i) (Some h) ps = Ret (Inr (Some (h @ ps)), t')
        \<and> writable t'
        \<and> (case bucket_at b ps of
              Some c \<Rightarrow> t' = t
            | None \<Rightarrow> bucket_at (root t') (h @ ps) = Some (Bucket 0 []))"
proof (induction ps arbitrary: t h b i)
  case Nil
  then show ?case by simp
next
  case (Cons p ps)
  from Cons.prems(3) have p: "p \<noteq> []"
    and nl: "case find_ent p (entries b) of Some (Leaf v) \<Rightarrow> False | _ \<Rightarrow> True"
    by (auto split: option.splits node.splits)
  from CreateBucketIfNotExists_step [OF Cons.prems(1) p Cons.prems(2) nl]
  obtain t1 where step: "Bucket_CreateBucketIfNotExists t h p = (Inr (h @ [p]), t1)"
    and w1: "writable t1"
    and eff: "case find_ent p (entries b) of
                  Some (Sub c) \<Rightarrow> t1 = t \<and> bucket_at (root t1) (h @ [p]) = Some c
                | _ \<Rightarrow> bucket_at (root t1) (h @ [p]) = Some (Bucket 0 [])"
    by blast
  show ?case
  proof (cases "find_ent p (entries b)")
    case None
    with eff have b1: "bucket_at (root t1) (h @ [p]) = Some (Bucket 0 [])" by simp
    from Cons.prems(3) None have "creatable (Bucket 0 []) ps" by (simp add: creatable_empty)
    from Cons.IH [OF w1 b1 this, of "Suc i"] obtain t' where
      l: "setBucketIfNotExist_loop True t1 (Suc (Suc i)) (Some (h @ [p])) ps
            = Ret (Inr (Some ((h @ [p]) @ ps)), t')"
      and w: "writable t'"
      and e: "case bucket_at (Bucket 0 []) ps of
                Some c \<Rightarrow> t' = t1
              | None \<Rightarrow> bucket_at (root t') ((h @ [p]) @ ps) = Some (Bucket 0 [])"
      by blast
    have "bucket_at (root t') (h @ p # ps) = Some (Bucket 0 [])"
      using e b1 by (cases "ps = []") (simp_all add: bucket_at_empty)
    with step l w None show ?thesis by simp
  next
    case (Some n)
    with nl obtain c where n: "n = Sub c" by (cases n) auto
    with eff Some have t1: "t1 = t" and b1: "bucket_at (root t1) (h @ [p]) = Some c" by auto
    from Cons.prems(3) Some n have "creatable c ps" by simp
    from Cons.IH [OF w1 b1 this, of "Suc i"] obtain t' where
      l: "setBucketIfNotExist_loop True t1 (Suc (Suc i)) (Some (h @ [p])) ps
            = Ret (Inr (Some ((h @ [p]) @ ps)), t')"
      and w: "writable t'"
      and e: "case bucket_at c ps of
                Some d \<Rightarrow> t' = t1
              | None \<Rightarrow> bucket_at (root t') ((h @ [p]) @ ps) = Some (Bucket 0 [])"
      by blast
    from step l w e t1 Some n show ?thesis by (auto split: option.splits)
  qed
qed

lemma setBucketIfNotExist_creates:
  assumes "writable t" "path \<noteq> []" "creatable (root t) path"
  shows "\<exists>t'. setBucketIfNotExist True t path = Ret (Inr path, t') \<and> writable t'
            \<and> (case bucket_at (root t) path of
                  Some c \<Rightarrow> t' = t
                | None \<Rightarrow> bucket_at (root t') path = Some (Bucket 0 []))"
proof -
  from assms(2) obtain p ps where path: "path = p # ps" by (cases path) auto
  from assms(3) path have p: "p \<noteq> []"
    and nl: "case find_ent p (entries (root t)) of Some (Leaf v) \<Rightarrow> False | _ \<Rightarrow> True"
    by (auto split: option.splits node.splits)
  have r: "bucket_at (root t) [] = Some (root t)" by simp
  from CreateBucketIfNotExists_step [OF assms(1) p r nl]
  obtain t1 where step: "Bucket_CreateBucketIfNotExists t [] p = (Inr ([] @ [p]), t1)"
    and w1: "writable t1"
    and eff: "case find_ent p (entries (root t)) of
                  Some (Sub c) \<Rightarrow> t1 = t \<and> bucket_at (root t1) ([] @ [p]) = Some c
                | _ \<Rightarrow> bucket_at (root t1) ([] @ [p]) = Some (Bucket 0 [])"
    by blast
  show ?thesis
  proof (cases "find_ent p (entries (root t))")
    case None
    with eff have b1: "bucket_at (root t1) [p] = Some (Bucket 0 [])" by simp
    from assms(3) path None have "creatable (Bucket 0 []) ps" by (simp add: creatable_empty)
    from create_loop [OF w1 b1 this, of 0] obtain t' where
      l: "setBucketIfNotExist_loop True t1 (Suc 0) (Some [p]) ps = Ret (Inr (Some ([p] @ ps)), t')"
      and w: "writable t'"
      and e: "case bucket_at (Bucket 0 []) ps of
                Some c \<Rightarrow> t' = t1
              | None \<Rightarrow> bucket_at (root t') ([p] @ ps) = Some (Bucket 0 [])"
      by blast
    have "bucket_at (root t') (p # ps) = Some (Bucket 0 [])"
      using e b1 by (cases "ps = []") (simp_all add: bucket_at_empty)
    with step l w None path show ?thesis
      by (simp add: setBucketIfNotExist_def Tx_CreateBucketIfNotExists_def)
  next
    case (Some n)
    with nl obtain c where n: "n = Sub c" by (cases n) auto
    with eff Some have t1: "t1 = t" and b1: "bucket_at (root t1) [p] = Some c" by auto
    from assms(3) path Some n have "creatable c ps" by simp
    from create_loop [OF w1 b1 this, of 0] obtain t' where
      l: "setBucketIfNotExist_loop True t1 (Suc 0) (Some [p]) ps = Ret (Inr (Some ([p] @ ps)), t')"
      and w: "writable t'"
      and e: "case bucket_at c ps of
                Some d \<Rightarrow> t' = t1
              | None \<Rightarrow> bucket_at (root t') ([p] @ ps) = Some (Bucket 0 [])"
      by blast
    from step l w e t1 Some n path show ?thesis
      by (auto simp: setBucketIfNotExist_def Tx_CreateBucketIfNotExists_def split: option.splits)
  qed
qed


lemma find_ent_map:
  "find_ent k (map (map_prod id f) es) = map_option f (find_ent k es)"
  by (induction es) (auto simp: find_ent_def seek_def)

lemma bucket_at_committed:
  "bucket_at (committed r) h = map_option committed (bucket_at r h)"
proof (induction h arbitrary: r)
  case Nil
  then show ?case by simp
next
  case (Cons p ps)
  obtain sq es where r: "r = Bucket sq es" by (cases r)
  show ?case
  proof (cases "find_ent p es")
    case None
    with r show ?thesis by (simp add: find_ent_map)
  next
    case (Some n)
    with r Cons.IH show ?thesis by (cases n) (simp_all add: find_ent_map)
  qed
qed

lemma Bucket_Get_committed:
  assumes "Bucket_Get t h key = Some v"
  shows "Bucket_Get \<lparr>writable = w, root = committed (root t)\<rparr> h key = Some v"
proof -
  from assms obtain b where b: "bucket_at (root t) h = Some b"
    and f: "find_ent key (entries b) = Some (Leaf (Some v))"
    by (auto simp: Bucket_Get_def ents_at_def find_ent_Nil split: option.splits node.splits)
  obtain sq es where bb: "b = Bucket sq es" by (cases b)
  from b f bb show ?thesis
    by (simp add: Bucket_Get_def ents_at_def bucket_at_committed find_ent_map)
qed

lemma Bucket_Put_accepts:
  assumes "writable t" "key \<noteq> []" "int (length key) \<le> MaxKeySize" "slice_len val \<le> MaxValueSize"
    "Bucket_Bucket t b key = None"
  shows "Bucket_Put t b key val
           = (None, t\<lparr>root := modify_at (map_ents (put_ent key (Leaf val))) b (root t)\<rparr>)"
  using assms
  by (auto simp: Bucket_Put_def Bucket_Bucket_def split: option.splits node.splits)

lemma Bucket_Get_after_put:
  assumes "bucket_at (root t) b = Some c"
  shows "Bucket_Get (t\<lparr>root := modify_at (map_ents (put_ent key (Leaf val))) b (root t)\<rparr>) b key = val
       \<and> bucket_at (root (t\<lparr>root := modify_at (map_ents (put_ent key (Leaf val))) b (root t)\<rparr>)) b
            \<noteq> None"
  using assms
  by (simp add: Bucket_Get_def ents_at_def bucket_at_modify_at map_ents_def find_ent_put_ent_same)

lemma Read_found:
  assumes "tx s = Some t" "path \<noteq> []" "bucket_at (root t) path \<noteq> None"
    "Bucket_Get t path key = Some v"
  shows "map_outcome fst (Read path key s) = Ret (Some v, None)"
  using assms(2-4)
  by (simp add: Read_def run_View_bound [OF assms(1)] Read_body_def setBucket_bound)

lemma write_read_put_rejected:
  assumes "tx s = Some t" "setBucketIfNotExist True t path = Ret (Inr b, t1)"
    "Bucket_Put t1 b key v = (Some e, t1)" "setBucket True t1 path = Ret (Inr b)"
    "Bucket_Get t1 b key = None"
  shows "write_read path key v s = Ret (Some e, None, Some ErrKeyNotFound)"
proof -
  let ?s' = "s\<lparr>tx := Some t1, err := Some e\<rparr>"
  have wr: "Write path key v s = Ret (Some e, ?s')"
    by (simp add: Write_def run_Update_bound [OF assms(1)] Write_body_def assms(2,3))
  have tx': "tx ?s' = Some t1" by simp
  have "map_outcome fst (Read path key ?s') = Ret (None, Some ErrKeyNotFound)"
    by (simp add: Read_def run_View_bound [OF tx'] Read_body_def assms(4,5))
  then show ?thesis by (auto simp: write_read_def wr split: outcome.splits)
qed

text \<open>
  Claim C8 says that for every non-empty path, key and value, Write followed by Read in the
  same or a later session returns the value with no error. It fails, each time with the
  errors shown, for a key that names a nested bucket of the container, for the empty key,
  for the nil value (which is written without error and read back as a missing key in the
  same session), in a read session, for a path with an empty segment, for a path that
  runs through a plain value, for a key of more than 32768 bytes and for a value of more
  than \<open>2^31 - 2\<close> bytes.
\<close>

theorem write_then_read_fails:
  "(case run_ops [OpWrite [''a'', ''b''] ''k'' (Some ''v'')] (WriteSession empty_db) of
      Panic \<Rightarrow> Panic
    | Ret s \<Rightarrow> write_read [''a''] ''b'' (Some ''w'') s)
     = Ret (Some ErrIncompatibleValue, None, Some ErrKeyNotFound)
   \<and> write_read [''a''] [] (Some ''w'') (WriteSession empty_db)
       = Ret (Some ErrKeyRequired, None, Some ErrKeyNotFound)
   \<and> write_read [''a''] ''k'' None (WriteSession empty_db)
       = Ret (None, None, Some ErrKeyNotFound)
   \<and> write_read [''a''] ''k'' (Some ''v'') (ReadSession empty_db)
       = Ret (Some ErrTxNotWritable, None, Some ErrPathNotFound)
   \<and> write_read [''a'', []] ''k'' (Some ''v'') (WriteSession empty_db)
       = Ret (Some ErrBucketNameRequired, None, Some ErrPathNotFound)
   \<and> write_read [''a'', ''k''] ''x'' (Some ''y'') (session_one_key None)
       = Ret (Some ErrIncompatibleValue, None, Some ErrPathNotFound)
   \<and> write_read [''a''] (replicate 32769 CHR ''k'') (Some ''v'') (WriteSession empty_db)
       = Ret (Some ErrKeyTooLarge, None, Some ErrKeyNotFound)
   \<and> write_read [''a''] ''k'' (Some (replicate 2147483647 CHR ''v'')) (WriteSession empty_db)
       = Ret (Some ErrValueTooLarge, None, Some ErrKeyNotFound)"
proof -
  have 1: "(case run_ops [OpWrite [''a'', ''b''] ''k'' (Some ''v'')] (WriteSession empty_db) of
      Panic \<Rightarrow> Panic
    | Ret s \<Rightarrow> write_read [''a''] ''b'' (Some ''w'') s)
     = Ret (Some ErrIncompatibleValue, None, Some ErrKeyNotFound)" by code_simp
  have 2: "write_read [''a''] [] (Some ''w'') (WriteSession empty_db)
       = Ret (Some ErrKeyRequired, None, Some ErrKeyNotFound)" by code_simp
  have 3: "write_read [''a''] ''k'' None (WriteSession empty_db)
       = Ret (None, None, Some ErrKeyNotFound)" by code_simp
  have 4: "write_read [''a''] ''k'' (Some ''v'') (ReadSession empty_db)
       = Ret (Some ErrTxNotWritable, None, Some ErrPathNotFound)" by code_simp
  have 5: "write_read [''a'', []] ''k'' (Some ''v'') (WriteSession empty_db)
       = Ret (Some ErrBucketNameRequired, None, Some ErrPathNotFound)" by code_simp
  have 6: "write_read [''a'', ''k''] ''x'' (Some ''y'') (session_one_key None)
       = Ret (Some ErrIncompatibleValue, None, Some ErrPathNotFound)" by code_simp
  have t: "tx (WriteSession empty_db) = Some \<lparr>writable = True, root = empty_db\<rparr>"
    by (simp add: WriteSession_def)
  have sb: "setBucketIfNotExist True \<lparr>writable = True, root = empty_db\<rparr> [''a'']
              = Ret (Inr [''a''], tx_empty_a)" by code_simp
  have rs: "setBucket True tx_empty_a [''a''] = Ret (Inr [''a''])" by code_simp
  have en: "ents_at tx_empty_a [''a''] = []" by code_simp
  have g: "Bucket_Get tx_empty_a [''a''] key = None" for key
    by (simp add: Bucket_Get_def en find_ent_Nil)
  have w: "writable tx_empty_a" by (simp add: tx_empty_a_def)
  have p7: "Bucket_Put tx_empty_a [''a''] (replicate 32769 CHR ''k'') (Some ''v'')
              = (Some ErrKeyTooLarge, tx_empty_a)"
    using w by (simp add: Bucket_Put_def MaxKeySize_def)
  have p8: "Bucket_Put tx_empty_a [''a''] ''k'' (Some (replicate 2147483647 CHR ''v''))
              = (Some ErrValueTooLarge, tx_empty_a)"
    using w by (simp add: Bucket_Put_def MaxKeySize_def MaxValueSize_def slice_len_def)
  have 7: "write_read [''a''] (replicate 32769 CHR ''k'') (Some ''v'') (WriteSession empty_db)
       = Ret (Some ErrKeyTooLarge, None, Some ErrKeyNotFound)"
    by (rule write_read_put_rejected [OF t sb p7 rs g])
  have 8: "write_read [''a''] ''k'' (Some (replicate 2147483647 CHR ''v'')) (WriteSession empty_db)
       = Ret (Some ErrValueTooLarge, None, Some ErrKeyNotFound)"
    by (rule write_read_put_rejected [OF t sb p8 rs g])
  from 1 2 3 4 5 6 7 8 show ?thesis by (simp only: simp_thms)
qed

text \<open>
  Claim C8, amended. In a session bound to a writable transaction, for every path that is
  non-empty, has no empty segment and runs through no plain value, every key that is
  non-empty, at most 32768 bytes long and not the name of a nested bucket of the container,
  and every non-nil value of at most \<open>2^31 - 2\<close> bytes: \<^verbatim>\<open>Write(P,K,V)\<close> returns no
  error, and \<^verbatim>\<open>Read(P,K)\<close> returns exactly \<open>V\<close> with no error, both as the next operation
  of the same session and in a read session opened after the closer of the writing
  session has run at that point.
\<close>

theorem write_then_read:
  assumes "tx s = Some t" "writable t" "path \<noteq> []" "creatable (root t) path"
    "key \<noteq> []" "int (length key) \<le> MaxKeySize" "int (length v) \<le> MaxValueSize"
    "Bucket_Bucket t path key = None"
  shows "write_read path key (Some v) s = Ret (None, Some v, None)
       \<and> write_close_read path key (Some v) s = Ret (None, Some v, None)"
proof -
  from setBucketIfNotExist_creates [OF assms(2,3,4)] obtain t1 where
    sb: "setBucketIfNotExist True t path = Ret (Inr path, t1)" and w1: "writable t1"
    and eff: "case bucket_at (root t) path of
                Some c \<Rightarrow> t1 = t
              | None \<Rightarrow> bucket_at (root t1) path = Some (Bucket 0 [])"
    by blast
  have b1: "bucket_at (root t1) path \<noteq> None" and nb: "Bucket_Bucket t1 path key = None"
    using eff assms(8)
    by (auto simp: Bucket_Bucket_def ents_at_def find_ent_Nil split: option.splits)
  then obtain c where c: "bucket_at (root t1) path = Some c" by auto
  let ?t2 = "t1\<lparr>root := modify_at (map_ents (put_ent key (Leaf (Some v)))) path (root t1)\<rparr>"
  have put: "Bucket_Put t1 path key (Some v) = (None, ?t2)"
    by (rule Bucket_Put_accepts [OF w1 assms(5,6) _ nb]) (simp add: slice_len_def assms(7))
  from Bucket_Get_after_put [OF c, of key "Some v"]
  have g: "Bucket_Get ?t2 path key = Some v" and b2: "bucket_at (root ?t2) path \<noteq> None"
    by simp_all
  let ?s' = "s\<lparr>tx := Some ?t2, err := None\<rparr>"
  have wr: "Write path key (Some v) s = Ret (None, ?s')"
    by (simp add: Write_def run_Update_bound [OF assms(1)] Write_body_def sb put)
  have tx': "tx ?s' = Some ?t2" by simp
  have 1: "map_outcome fst (Read path key ?s') = Ret (Some v, None)"
    by (rule Read_found [OF tx' assms(3) b2 g])
  let ?t3 = "\<lparr>writable = False, root = committed (root ?t2)\<rparr>"
  have closer: "write_closer ?s' = committed (root ?t2)"
    by (simp add: write_closer_def Tx_Commit_def)
  have tx3: "tx (ReadSession (write_closer ?s')) = Some ?t3"
    by (simp add: ReadSession_def closer)
  have g3: "Bucket_Get ?t3 path key = Some v"
    by (rule Bucket_Get_committed [OF g])
  have b3: "bucket_at (root ?t3) path \<noteq> None"
    using b2 by (simp add: bucket_at_committed)
  have 2: "map_outcome fst (Read path key (ReadSession (write_closer ?s'))) = Ret (Some v, None)"
    by (rule Read_found [OF tx3 assms(3) b3 g3])
  from 1 have r1: "write_read path key (Some v) s = Ret (None, Some v, None)"
    by (auto simp: write_read_def wr split: outcome.splits)
  from 2 have r2: "write_close_read path key (Some v) s = Ret (None, Some v, None)"
    by (auto simp: write_close_read_def wr split: outcome.splits)
  from r1 r2 show ?thesis by simp
qed

theorem write_then_read_witness:
  "tx (session_one_key None) = Some tx_one_key \<and> writable tx_one_key \<and> [''a''] \<noteq> ([]::bytes list)
   \<and> creatable (root tx_one_key) [''a''] \<and> ''k2'' \<noteq> []
   \<and> int (length ''k2'') \<le> MaxKeySize \<and> int (length ''v2'') \<le> MaxValueSize
   \<and> Bucket_Bucket tx_one_key [''a''] ''k2'' = None
   \<and> write_read [''a''] ''k2'' (Some ''v2'') (session_one_key None) = Ret (None, Some ''v2'', None)
   \<and> write_close_read [''a''] ''k2'' (Some ''v2'') (session_one_key None)
       = Ret (None, Some ''v2'', None)"
proof -
  have h1: "tx (session_one_key None) = Some tx_one_key" by (simp add: session_one_key_def)
  have h2: "writable tx_one_key" by (simp add: tx_one_key_def)
  have h3: "[''a''] \<noteq> ([]::bytes list)" by simp
  have h4: "creatable (root tx_one_key) [''a'']" by code_simp
  have h5: "''k2'' \<noteq> []" by simp
  have h6: "int (length ''k2'') \<le> MaxKeySize" by (simp add: MaxKeySize_def)
  have h7: "int (length ''v2'') \<le> MaxValueSize" by (simp add: MaxValueSize_def)
  have h8: "Bucket_Bucket tx_one_key [''a''] ''k2'' = None" by code_simp
  show ?thesis
    using h1 h2 h3 h4 h5 h6 h7 h8 write_then_read [OF h1 h2 h3 h4 h5 h6 h7 h8] by simp
qed

end
